theory Spec2Isabelle
  imports Complex_Main "HOL-Library.Word" "HOL-Library.Log_Nat"
begin

section \<open>JavaScript values used by App.tsx\<close>

subsection \<open>Strings\<close>

text \<open>
  A JavaScript string is a sequence of UTF-16 code units. The regular expressions of
  App.tsx carry no \<open>u\<close> flag, so they match code unit by code unit. The currency
  symbols of the pattern table are single code units of the Basic Multilingual Plane.
\<close>

type_synonym jschar = "16 word"
type_synonym jsstring = "jschar list"

definition js :: "string \<Rightarrow> jsstring" where
  \<comment> \<open>an ASCII literal as a JavaScript string\<close>
  "js s = map (\<lambda>c. of_nat (of_char c)) s"

definition DOLLAR :: jschar where "DOLLAR = 0x24"
definition EURO :: jschar where "EURO = 0x20AC"
definition RUPEE :: jschar where "RUPEE = 0x20B9"
definition POUND :: jschar where "POUND = 0xA3"
definition DOT :: jschar where "DOT = 0x2E"
definition PLUS_SIGN :: jschar where "PLUS_SIGN = 0x2B"
definition MINUS_SIGN :: jschar where "MINUS_SIGN = 0x2D"

definition isDigit :: "jschar \<Rightarrow> bool" where
  \<comment> \<open>the class \<open>\d\<close>, and DecimalDigit of the numeric grammar: \<open>0\<close> to \<open>9\<close>\<close>
  "isDigit c = (0x30 \<le> c \<and> c \<le> 0x39)"

definition isSpace :: "jschar \<Rightarrow> bool" where
  \<comment> \<open>the class \<open>\s\<close>, and StrWhiteSpaceChar: WhiteSpace and LineTerminator\<close>
  "isSpace c =
     (c = 0x09 \<or> c = 0x0A \<or> c = 0x0B \<or> c = 0x0C \<or> c = 0x0D \<or> c = 0x20 \<or> c = 0xA0
      \<or> c = 0x1680 \<or> (0x2000 \<le> c \<and> c \<le> 0x200A) \<or> c = 0x2028 \<or> c = 0x2029
      \<or> c = 0x202F \<or> c = 0x205F \<or> c = 0x3000 \<or> c = 0xFEFF)"

subsection \<open>Numbers\<close>

text \<open>
  The type \<open>number\<close> is IEEE 754 binary64: NaN, the two infinities, the two zeros and
  the finite values \<open>\<plusminus> n * 2^(e - 52)\<close> with \<open>n < 2^53\<close> and \<open>- 1022 \<le> e \<le> 1023\<close>.
  A finite non-zero value and the positive zero are \<open>Fin q\<close> with \<open>q\<close> the rational it
  denotes; the negative zero is \<open>NegZero\<close>. Every operation computes the exact result
  and rounds it to the nearest value of the type, ties to the even significand
  (\<open>round64\<close>), overflowing to an infinity and underflowing through the subnormal
  values to a zero.
\<close>

datatype jsnum = NaN | Fin rat | NegZero | PosInf | NegInf

definition ilog2 :: "rat \<Rightarrow> int" where
  \<comment> \<open>the exponent of a positive rational: \<open>2^(ilog2 a) \<le> a < 2^(ilog2 a + 1)\<close>\<close>
  "ilog2 a = (if 1 \<le> a then bitlen \<lfloor>a\<rfloor> - 1 else - bitlen (\<lceil>1 / a\<rceil> - 1))"

definition rhe :: "rat \<Rightarrow> int" where
  \<comment> \<open>the nearest integer, a tie going to the even one\<close>
  "rhe m =
     (let f = \<lfloor>m\<rfloor>; r = m - of_int f
      in if r < 1 / 2 then f else if 1 / 2 < r then f + 1 else if even f then f else f + 1)"

definition round64 :: "rat \<Rightarrow> jsnum" where
  \<comment> \<open>the binary64 value nearest to an exact result; also the Number value of a
      numeric literal of the source\<close>
  "round64 q =
     (if q = 0 then Fin 0
      else
        let a = \<bar>q\<bar>;
            e = max (ilog2 a) (- 1022);
            ulp = 2 powi (e - 52);
            r = of_int (rhe (a / ulp)) * ulp
        in if 2 powi 1024 \<le> r then (if 0 < q then PosInf else NegInf)
           else if r = 0 then (if 0 < q then Fin 0 else NegZero)
           else Fin (if 0 < q then r else - r))"

fun isNaN :: "jsnum \<Rightarrow> bool" where
  "isNaN NaN = True"
| "isNaN _ = False"

fun signBit :: "jsnum \<Rightarrow> bool" where
  "signBit (Fin a) = (a < 0)"
| "signBit NegZero = True"
| "signBit NegInf = True"
| "signBit _ = False"

fun isZero :: "jsnum \<Rightarrow> bool" where
  "isZero (Fin a) = (a = 0)"
| "isZero NegZero = True"
| "isZero _ = False"

fun isInf :: "jsnum \<Rightarrow> bool" where
  "isInf PosInf = True"
| "isInf NegInf = True"
| "isInf _ = False"

definition signedZero :: "bool \<Rightarrow> jsnum" where
  "signedZero negative = (if negative then NegZero else Fin 0)"

definition signedInf :: "bool \<Rightarrow> jsnum" where
  "signedInf negative = (if negative then NegInf else PosInf)"

fun finval :: "jsnum \<Rightarrow> rat" where
  \<comment> \<open>the rational a finite value denotes\<close>
  "finval (Fin a) = a"
| "finval _ = 0"

fun jneg :: "jsnum \<Rightarrow> jsnum" where
  "jneg NaN = NaN"
| "jneg (Fin a) = (if a = 0 then NegZero else Fin (- a))"
| "jneg NegZero = Fin 0"
| "jneg PosInf = NegInf"
| "jneg NegInf = PosInf"

fun jadd :: "jsnum \<Rightarrow> jsnum \<Rightarrow> jsnum" where
  "jadd NaN _ = NaN"
| "jadd _ NaN = NaN"
| "jadd (Fin a) (Fin b) = round64 (a + b)"
| "jadd NegZero NegZero = NegZero"
| "jadd NegZero y = y"
| "jadd x NegZero = x"
| "jadd PosInf NegInf = NaN"
| "jadd NegInf PosInf = NaN"
| "jadd PosInf _ = PosInf"
| "jadd _ PosInf = PosInf"
| "jadd NegInf _ = NegInf"
| "jadd _ NegInf = NegInf"

definition jsub :: "jsnum \<Rightarrow> jsnum \<Rightarrow> jsnum" where
  "jsub a b = jadd a (jneg b)"

fun jmul :: "jsnum \<Rightarrow> jsnum \<Rightarrow> jsnum" where
  "jmul NaN _ = NaN"
| "jmul _ NaN = NaN"
| "jmul (Fin a) (Fin b) =
     (if a * b = 0 then signedZero ((a < 0) \<noteq> (b < 0)) else round64 (a * b))"
| "jmul x y =
     (if isZero x \<or> isZero y then
        (if isInf x \<or> isInf y then NaN else signedZero (signBit x \<noteq> signBit y))
      else signedInf (signBit x \<noteq> signBit y))"

fun jdiv :: "jsnum \<Rightarrow> jsnum \<Rightarrow> jsnum" where
  "jdiv NaN _ = NaN"
| "jdiv _ NaN = NaN"
| "jdiv (Fin a) (Fin b) =
     (if b = 0 then (if a = 0 then NaN else signedInf (a < 0))
      else if a = 0 then signedZero (b < 0)
      else round64 (a / b))"
| "jdiv x y =
     (if (isZero x \<and> isZero y) \<or> (isInf x \<and> isInf y) then NaN
      else if isInf x \<or> isZero y then signedInf (signBit x \<noteq> signBit y)
      else signedZero (signBit x \<noteq> signBit y))"

fun jlt :: "jsnum \<Rightarrow> jsnum \<Rightarrow> bool" where
  \<comment> \<open>\<open>a < b\<close>: false as soon as one side is NaN; the two zeros are equal\<close>
  "jlt NaN _ = False"
| "jlt _ NaN = False"
| "jlt PosInf _ = False"
| "jlt _ NegInf = False"
| "jlt NegInf _ = True"
| "jlt _ PosInf = True"
| "jlt x y = (finval x < finval y)"

definition jgt :: "jsnum \<Rightarrow> jsnum \<Rightarrow> bool" where
  "jgt a b = jlt b a"

subsection \<open>parseFloat\<close>

text \<open>
  \<open>parseFloat\<close> skips leading white space and converts the longest prefix of the rest
  that is a StrDecimalLiteral: an optional sign, then \<open>Infinity\<close> or decimal digits with
  an optional fraction and an optional exponent. It is NaN when there is no such prefix.
  The mathematical value of the literal is rounded to the nearest binary64 value, as the
  engines do for a literal of any length.
\<close>

definition digitVal :: "jschar \<Rightarrow> nat" where
  "digitVal c = unat c - 48"

definition digitsVal :: "jsstring \<Rightarrow> nat" where
  "digitsVal ds = foldl (\<lambda>acc c. 10 * acc + digitVal c) 0 ds"

definition exponentPart :: "jsstring \<Rightarrow> int" where
  \<comment> \<open>ExponentPart: \<open>e\<close> or \<open>E\<close>, an optional sign, at least one digit; 0 when absent\<close>
  "exponentPart s =
     (case s of
        [] \<Rightarrow> 0
      | e # r \<Rightarrow>
          if e = 0x65 \<or> e = 0x45 then
            (case r of
               [] \<Rightarrow> 0
             | c # r' \<Rightarrow>
                 if c = MINUS_SIGN then
                   (if takeWhile isDigit r' = [] then 0 else - int (digitsVal (takeWhile isDigit r')))
                 else if c = PLUS_SIGN then int (digitsVal (takeWhile isDigit r'))
                 else int (digitsVal (takeWhile isDigit r)))
          else 0)"

definition scale10 :: "rat \<Rightarrow> int \<Rightarrow> rat" where
  "scale10 m e = (if 0 \<le> e then m * 10 ^ nat e else m / 10 ^ nat (- e))"

definition unsignedDecimal :: "jsstring \<Rightarrow> rat option" where
  \<comment> \<open>StrUnsignedDecimalLiteral without \<open>Infinity\<close>; \<open>None\<close> when no prefix is one\<close>
  "unsignedDecimal s =
     (let ip = takeWhile isDigit s; r1 = dropWhile isDigit s
      in case r1 of
           [] \<Rightarrow> (if ip = [] then None else Some (of_nat (digitsVal ip)))
         | c # r \<Rightarrow>
             if c = DOT then
               (let fp = takeWhile isDigit r; r2 = dropWhile isDigit r
                in if ip = [] \<and> fp = [] then None
                   else Some (scale10 (of_nat (digitsVal (ip @ fp)) / 10 ^ length fp)
                                (exponentPart r2)))
             else if ip = [] then None
             else Some (scale10 (of_nat (digitsVal ip)) (exponentPart r1)))"

definition parseFloat :: "jsstring \<Rightarrow> jsnum" where
  "parseFloat input =
     (let trimmed = dropWhile isSpace input;
          neg = (case trimmed of [] \<Rightarrow> False | c # _ \<Rightarrow> c = MINUS_SIGN);
          body = (case trimmed of
                    [] \<Rightarrow> []
                  | c # r \<Rightarrow> if c = MINUS_SIGN \<or> c = PLUS_SIGN then r else trimmed)
      in if take 8 body = js ''Infinity'' then (if neg then NegInf else PosInf)
         else case unsignedDecimal body of
                None \<Rightarrow> NaN
              | Some v \<Rightarrow> (if neg then jneg (round64 v) else round64 v))"

subsection \<open>Regular expressions\<close>

text \<open>
  The fragment of the regular-expression language that App.tsx uses, with the
  backtracking semantics of the language: a matcher returns every way of matching at the
  start of the input, most preferred first, and the match is the first of them. A state
  is the string captured by group 1 so far (the patterns have one group) and the input
  still to read. Quantifiers are greedy; an iteration of a star that consumes nothing is
  dropped, as the language prescribes.
\<close>

datatype rx =
    Chr jschar      \<comment> \<open>one given code unit\<close>
  | Digit           \<comment> \<open>\<open>\d\<close>\<close>
  | Space           \<comment> \<open>\<open>\s\<close>\<close>
  | Seq rx rx       \<comment> \<open>concatenation\<close>
  | Star rx         \<comment> \<open>\<open>r*\<close>\<close>
  | Opt rx          \<comment> \<open>\<open>r?\<close> and \<open>(?:r)?\<close>\<close>
  | Group rx        \<comment> \<open>the capturing group \<open>(r)\<close>\<close>

type_synonym mstate = "jsstring option \<times> jsstring"

function (sequential) ms :: "rx \<Rightarrow> mstate \<Rightarrow> mstate list" where
  "ms (Chr c) (g, s) = (case s of [] \<Rightarrow> [] | x # xs \<Rightarrow> if x = c then [(g, xs)] else [])"
| "ms Digit (g, s) = (case s of [] \<Rightarrow> [] | x # xs \<Rightarrow> if isDigit x then [(g, xs)] else [])"
| "ms Space (g, s) = (case s of [] \<Rightarrow> [] | x # xs \<Rightarrow> if isSpace x then [(g, xs)] else [])"
| "ms (Seq a b) st = concat (map (ms b) (ms a st))"
| "ms (Opt a) st = ms a st @ [st]"
| "ms (Group a) (g, s) =
     map (\<lambda>(g', s'). (Some (take (length s - length s') s), s')) (ms a (g, s))"
| "ms (Star a) (g, s) =
     concat (map (\<lambda>(g', s'). if length s' < length s then ms (Star a) (g', s') else [])
                 (ms a (g, s)))
     @ [(g, s)]"
  by pat_completeness auto
termination
  by (relation "measures [\<lambda>(r, st). size r, \<lambda>(r, g, s). length s]") auto

definition Plus :: "rx \<Rightarrow> rx" where
  \<comment> \<open>\<open>r+\<close>\<close>
  "Plus a = Seq a (Star a)"

record jsmatch_result =
  whole :: jsstring             \<comment> \<open>\<open>match[0]\<close>\<close>
  group1 :: "jsstring option"   \<comment> \<open>\<open>match[1]\<close>; \<open>None\<close> is \<open>undefined\<close>\<close>

fun jsmatch :: "rx \<Rightarrow> jsstring \<Rightarrow> jsmatch_result option" where
  \<comment> \<open>\<open>text.match(pattern)\<close> for a pattern without the \<open>g\<close> flag: the match at the
      leftmost position that has one; \<open>None\<close> is \<open>null\<close>\<close>
  "jsmatch r [] =
     (case ms r (None, []) of
        [] \<Rightarrow> None
      | (g, s') # _ \<Rightarrow> Some \<lparr>whole = [], group1 = g\<rparr>)"
| "jsmatch r (x # xs) =
     (case ms r (None, x # xs) of
        [] \<Rightarrow> jsmatch r xs
      | (g, s') # _ \<Rightarrow> Some \<lparr>whole = take (length (x # xs) - length s') (x # xs), group1 = g\<rparr>)"

function matchAllG :: "rx \<Rightarrow> jsstring \<Rightarrow> jsstring list" where
  \<comment> \<open>the matched substrings that \<open>text.match(pattern)\<close> collects for a pattern with
      the \<open>g\<close> flag, left to right without overlap; after an empty match the search
      moves on by one code unit\<close>
  "matchAllG r s =
     (case ms r (None, s) of
        [] \<Rightarrow> (case s of [] \<Rightarrow> [] | _ # xs \<Rightarrow> matchAllG r xs)
      | (g, s') # _ \<Rightarrow>
          take (length s - length s') s #
            (if length s' < length s then matchAllG r s'
             else (case s of [] \<Rightarrow> [] | _ # xs \<Rightarrow> matchAllG r xs)))"
  by pat_completeness auto
termination
  by (relation "measure (\<lambda>(r, s). length s)") auto

declare matchAllG.simps [simp del]

definition jsmatchG :: "rx \<Rightarrow> jsstring \<Rightarrow> jsstring list option" where
  \<comment> \<open>\<open>text.match(pattern)\<close> with the \<open>g\<close> flag: \<open>null\<close> when nothing matches\<close>
  "jsmatchG r s = (case matchAllG r s of [] \<Rightarrow> None | m # rest \<Rightarrow> Some (m # rest))"

section \<open>The price extractor\<close>

definition amountRx :: rx where
  \<comment> \<open>\<open>(\d+(?:\.\d{2})?)\<close>\<close>
  "amountRx = Group (Seq (Plus Digit) (Opt (Seq (Chr DOT) (Seq Digit Digit))))"

definition symbolRx :: "jschar \<Rightarrow> rx" where
  \<comment> \<open>a currency symbol, \<open>\s*\<close>, and the amount\<close>
  "symbolRx symbol = Seq (Chr symbol) (Seq (Star Space) amountRx)"

definition CURRENCY_PATTERNS :: "(string \<times> rx) list" where
  \<comment> \<open>an object literal: its keys in insertion order\<close>
  "CURRENCY_PATTERNS =
     [(''USD'', symbolRx DOLLAR),
      (''EUR'', symbolRx EURO),
      (''INR'', symbolRx RUPEE),
      (''GBP'', symbolRx POUND),
      (''GENERIC'', amountRx)]"

definition fallbackRx :: rx where
  \<comment> \<open>\<open>\d+\.?\d*\<close>\<close>
  "fallbackRx = Seq (Plus Digit) (Seq (Opt (Chr DOT)) (Star Digit))"

fun currencyPass :: "rx list \<Rightarrow> jsstring \<Rightarrow> jsnum option" where
  \<comment> \<open>the \<open>for\<close> loop over the patterns; \<open>None\<close> when the loop ends without returning\<close>
  "currencyPass [] text = None"
| "currencyPass (pattern # rest) text =
     (case jsmatch pattern text of
        None \<Rightarrow> currencyPass rest text
      | Some m \<Rightarrow>
          (case group1 m of
             None \<Rightarrow> currencyPass rest text
           | Some g \<Rightarrow>
               if g \<noteq> [] then
                 (let price = parseFloat g
                  in if \<not> isNaN price then Some price else currencyPass rest text)
               else currencyPass rest text))"

definition fallbackPass :: "jsstring \<Rightarrow> jsnum option" where
  "fallbackPass text =
     (case jsmatchG fallbackRx text of
        None \<Rightarrow> None
      | Some numbers \<Rightarrow>
          (let possiblePrices =
                 filter (\<lambda>num. jgt num (Fin 0) \<and> jlt num (Fin 10000)) (map parseFloat numbers)
           in case possiblePrices of [] \<Rightarrow> None | p # _ \<Rightarrow> Some p))"

definition extractPrice :: "jsstring \<Rightarrow> jsnum option" where
  \<comment> \<open>\<open>None\<close> is \<open>null\<close>\<close>
  "extractPrice text =
     (case currencyPass (map snd CURRENCY_PATTERNS) text of
        Some price \<Rightarrow> Some price
      | None \<Rightarrow> fallbackPass text)"

section \<open>The basket\<close>

record Item =
  item_id :: jsstring
  item_name :: jsstring
  price :: jsnum

definition SAMPLE_ITEMS :: "Item list" where
  "SAMPLE_ITEMS =
     [\<lparr>item_id = js ''1'', item_name = js ''Apple'', price = round64 (50 / 100)\<rparr>,
      \<lparr>item_id = js ''2'', item_name = js ''Banana'', price = round64 (30 / 100)\<rparr>,
      \<lparr>item_id = js ''3'', item_name = js ''Orange'', price = round64 (60 / 100)\<rparr>,
      \<lparr>item_id = js ''4'', item_name = js ''Milk'', price = round64 (299 / 100)\<rparr>,
      \<lparr>item_id = js ''5'', item_name = js ''Bread'', price = round64 (199 / 100)\<rparr>,
      \<lparr>item_id = js ''6'', item_name = js ''egg'', price = round64 (199 / 100)\<rparr>]"

definition TAX_RATE :: jsnum where
  "TAX_RATE = round64 (8 / 100)"

definition subtotal :: "Item list \<Rightarrow> jsnum" where
  \<comment> \<open>\<open>basket.reduce((sum, item) => sum + item.price, 0)\<close>\<close>
  "subtotal basket = foldl (\<lambda>sum item. jadd sum (price item)) (Fin 0) basket"

definition discountAmount :: "Item list \<Rightarrow> jsnum \<Rightarrow> jsnum" where
  "discountAmount basket discount = jdiv (jmul (subtotal basket) discount) (Fin 100)"

definition taxAmount :: "Item list \<Rightarrow> jsnum \<Rightarrow> jsnum" where
  "taxAmount basket discount =
     jmul (jsub (subtotal basket) (discountAmount basket discount)) TAX_RATE"

definition totalBill :: "Item list \<Rightarrow> jsnum \<Rightarrow> jsnum" where
  "totalBill basket discount =
     jadd (jsub (subtotal basket) (discountAmount basket discount)) (taxAmount basket discount)"

section \<open>The component state and its handlers\<close>

text \<open>
  The part of the component state that the handlers below read or write. A handler is a
  closure of the render that created it: it reads the state of that render and its
  \<open>set\<close> calls write into the current state. For a handler that runs at once (a click, the
  manual form) the two are the same state. The continuation of an asynchronous handler
  (the recognition of a frame, the decoding of a barcode) runs later and still holds the
  basket of the render in which it was started.
\<close>

record AppState =
  basket :: "Item list"
  showCamera :: bool
  scanError :: "jsstring option"      \<comment> \<open>\<open>None\<close> is \<open>null\<close>\<close>
  manualPrice :: jsstring
  showManualInput :: bool
  isScanning :: bool

definition initialState :: AppState where
  "initialState =
     \<lparr>basket = [], showCamera = False, scanError = None, manualPrice = [],
      showManualInput = False, isScanning = False\<rparr>"

fun numberToString :: "nat \<Rightarrow> jsstring" where
  \<comment> \<open>\<open>toString()\<close> of a non-negative integer such as \<open>Date.now()\<close>\<close>
  "numberToString n =
     (if n < 10 then [of_nat (48 + n)]
      else numberToString (n div 10) @ [of_nat (48 + n mod 10)])"

declare numberToString.simps [simp del]

definition addItemToBasket :: "Item list \<Rightarrow> Item \<Rightarrow> AppState \<Rightarrow> AppState" where
  \<comment> \<open>\<open>setBasket([...basket, item])\<close>, where \<open>basket\<close> is the one of the closure\<close>
  "addItemToBasket closureBasket item st = st\<lparr>basket := closureBasket @ [item]\<rparr>"

definition removeItemFromBasket :: "nat \<Rightarrow> AppState \<Rightarrow> AppState" where
  \<comment> \<open>\<open>setBasket(basket.filter((_, i) => i !== index))\<close>, run at the click\<close>
  "removeItemFromBasket index st =
     st\<lparr>basket := map fst (filter (\<lambda>(_, i). i \<noteq> index)
                                  (zip (basket st) [0 ..< length (basket st)]))\<rparr>"

definition handleManualPriceSubmit :: "nat \<Rightarrow> AppState \<Rightarrow> AppState" where
  \<comment> \<open>run at the submit; \<open>now\<close> is the value of \<open>Date.now()\<close>\<close>
  "handleManualPriceSubmit now st =
     (let price = parseFloat (manualPrice st)
      in if \<not> isNaN price \<and> jgt price (Fin 0) then
           (addItemToBasket (basket st)
              \<lparr>item_id = numberToString now, item_name = js ''Manual Item'', price = price\<rparr> st)
             \<lparr>manualPrice := [], showManualInput := False, scanError := None\<rparr>
         else st\<lparr>scanError := Some (js ''Please enter a valid price'')\<rparr>)"

definition processImageStart :: "AppState \<Rightarrow> AppState" where
  \<comment> \<open>\<open>processImage\<close> up to its first \<open>await\<close>\<close>
  "processImageStart st = st\<lparr>isScanning := True\<rparr>"

definition processImage :: "nat \<Rightarrow> jsstring option \<Rightarrow> Item list \<Rightarrow> AppState \<Rightarrow> AppState" where
  \<comment> \<open>\<open>processImage\<close> after the recognition: \<open>recognized\<close> is the text the worker
      returned, \<open>None\<close> when it threw; \<open>closureBasket\<close> is the basket of the render in
      which the frame was captured\<close>
  "processImage now recognized closureBasket st =
     (case recognized of
        None \<Rightarrow>
          st\<lparr>scanError := Some (js ''Error processing the image. Please try again or enter manually.''),
             showManualInput := True, isScanning := False\<rparr>
      | Some text \<Rightarrow>
          (case extractPrice text of
             Some found \<Rightarrow>
               (addItemToBasket closureBasket
                  \<lparr>item_id = numberToString now, item_name = js ''Scanned Item'', price = found\<rparr> st)
                 \<lparr>scanError := None, showCamera := False, isScanning := False\<rparr>
           | None \<Rightarrow>
               st\<lparr>scanError := Some (js ''Could not detect a valid price. Please try again or enter manually.''),
                  showManualInput := True, isScanning := False\<rparr>))"

definition startBarcodeScanner :: "AppState \<Rightarrow> AppState" where
  \<comment> \<open>\<open>startBarcodeScanner\<close> up to its \<open>await\<close>\<close>
  "startBarcodeScanner st = st\<lparr>showCamera := True, scanError := None\<rparr>"

definition barcodeDecoded :: "nat \<Rightarrow> jsstring \<Rightarrow> Item list \<Rightarrow> AppState \<Rightarrow> AppState" where
  \<comment> \<open>the \<open>then\<close> callback of \<open>startBarcodeScanner\<close>, with the decoded text and the
      basket of the render in which the scanner was started\<close>
  "barcodeDecoded now code closureBasket st =
     (addItemToBasket closureBasket
        \<lparr>item_id = numberToString now, item_name = js ''Item ('' @ code @ js '')'',
         price = round64 (999 / 100)\<rparr> st)
       \<lparr>showCamera := False\<rparr>"

definition barcodeFailed :: "AppState \<Rightarrow> AppState" where
  \<comment> \<open>the \<open>catch\<close> callback of the decoding\<close>
  "barcodeFailed st = st\<lparr>scanError := Some (js ''Failed to scan barcode. Please try again.'')\<rparr>"

definition barcodeInitFailed :: "AppState \<Rightarrow> AppState" where
  \<comment> \<open>the \<open>catch\<close> block of \<open>startBarcodeScanner\<close>: the camera stream was refused\<close>
  "barcodeInitFailed st = st\<lparr>scanError := Some (js ''Failed to initialize barcode scanner'')\<rparr>"

text \<open>
  A session is the component state together with the asynchronous operations that were
  started and have not finished; each holds the basket of its closure.
\<close>

datatype pending = PendingFrame "Item list" | PendingBarcode "Item list"

record Session =
  ui :: AppState
  pending :: "pending list"

definition initialSession :: Session where
  "initialSession = \<lparr>ui = initialState, pending = []\<rparr>"

definition dropAt :: "nat \<Rightarrow> 'a list \<Rightarrow> 'a list" where
  "dropAt k xs = take k xs @ drop (Suc k) xs"

datatype action =
    CaptureImage                           \<comment> \<open>the capture button: a recognition starts\<close>
  | FrameRecognized nat nat "jsstring option"
      \<comment> \<open>the pending operation at this position, a recognition, finishes at this clock
          reading with this text\<close>
  | StartBarcodeScanner                    \<comment> \<open>the barcode button: a decoding starts\<close>
  | BarcodeDecoded nat nat jsstring
      \<comment> \<open>the pending operation at this position, a decoding, finishes at this clock
          reading with this text\<close>
  | BarcodeFailed nat                      \<comment> \<open>the pending decoding at this position fails\<close>
  | BarcodeInitFailed nat
      \<comment> \<open>the pending decoding at this position does not get the camera stream\<close>
  | TypeManualPrice jsstring               \<comment> \<open>\<open>setManualPrice\<close> from the input field\<close>
  | SubmitManualPrice nat                  \<comment> \<open>the manual form is submitted at this clock reading\<close>
  | PickSample nat                         \<comment> \<open>the button of the sample item at this position\<close>
  | RemoveItem nat                         \<comment> \<open>the remove button of the basket row at this position\<close>

fun step :: "Session \<Rightarrow> action \<Rightarrow> Session" where
  "step s CaptureImage =
     \<lparr>ui = processImageStart (ui s), pending = pending s @ [PendingFrame (basket (ui s))]\<rparr>"
| "step s (FrameRecognized k now recognized) =
     (if k < length (pending s) then
        (case pending s ! k of
           PendingFrame closureBasket \<Rightarrow>
             \<lparr>ui = processImage now recognized closureBasket (ui s), pending = dropAt k (pending s)\<rparr>
         | PendingBarcode _ \<Rightarrow> s)
      else s)"
| "step s StartBarcodeScanner =
     \<lparr>ui = startBarcodeScanner (ui s), pending = pending s @ [PendingBarcode (basket (ui s))]\<rparr>"
| "step s (BarcodeDecoded k now code) =
     (if k < length (pending s) then
        (case pending s ! k of
           PendingBarcode closureBasket \<Rightarrow>
             \<lparr>ui = barcodeDecoded now code closureBasket (ui s), pending = dropAt k (pending s)\<rparr>
         | PendingFrame _ \<Rightarrow> s)
      else s)"
| "step s (BarcodeFailed k) =
     (if k < length (pending s) then
        (case pending s ! k of
           PendingBarcode _ \<Rightarrow> \<lparr>ui = barcodeFailed (ui s), pending = dropAt k (pending s)\<rparr>
         | PendingFrame _ \<Rightarrow> s)
      else s)"
| "step s (BarcodeInitFailed k) =
     (if k < length (pending s) then
        (case pending s ! k of
           PendingBarcode _ \<Rightarrow> \<lparr>ui = barcodeInitFailed (ui s), pending = dropAt k (pending s)\<rparr>
         | PendingFrame _ \<Rightarrow> s)
      else s)"
| "step s (TypeManualPrice v) = s\<lparr>ui := (ui s)\<lparr>manualPrice := v\<rparr>\<rparr>"
| "step s (SubmitManualPrice now) = s\<lparr>ui := handleManualPriceSubmit now (ui s)\<rparr>"
| "step s (PickSample k) =
     (if k < length SAMPLE_ITEMS
      then s\<lparr>ui := addItemToBasket (basket (ui s)) (SAMPLE_ITEMS ! k) (ui s)\<rparr>
      else s)"
| "step s (RemoveItem index) = s\<lparr>ui := removeItemFromBasket index (ui s)\<rparr>"

definition run :: "action list \<Rightarrow> Session" where
  "run acts = foldl step initialSession acts"

fun clockReadings :: "action list \<Rightarrow> nat list" where
  \<comment> \<open>the values of \<open>Date.now()\<close> at the actions that can read it\<close>
  "clockReadings [] = []"
| "clockReadings (FrameRecognized k now recognized # acts) = now # clockReadings acts"
| "clockReadings (BarcodeDecoded k now code # acts) = now # clockReadings acts"
| "clockReadings (SubmitManualPrice now # acts) = now # clockReadings acts"
| "clockReadings (_ # acts) = clockReadings acts"

section \<open>The frame preprocessor\<close>

text \<open>
  The pixel data of a canvas is a \<open>Uint8ClampedArray\<close>, four bytes per pixel. Reading
  past its end gives \<open>undefined\<close>, which is NaN in arithmetic; writing past its end
  does nothing.
\<close>

definition channel :: "8 word list \<Rightarrow> nat \<Rightarrow> jsnum" where
  "channel data j = (if j < length data then Fin (of_nat (unat (data ! j))) else NaN)"

definition store :: "8 word list \<Rightarrow> nat \<Rightarrow> 8 word \<Rightarrow> 8 word list" where
  "store data j v = (if j < length data then data[j := v] else data)"

definition pixelValue :: "jsnum \<Rightarrow> jsnum \<Rightarrow> jsnum \<Rightarrow> 8 word" where
  "pixelValue r g b =
     (let avg = jdiv (jadd (jadd r g) b) (Fin 3);
          threshold = Fin 128
      in if jgt avg threshold then 255 else 0)"

function enhanceContrast :: "nat \<Rightarrow> 8 word list \<Rightarrow> 8 word list" where
  \<comment> \<open>the \<open>for\<close> loop of \<open>captureImage\<close>, from index \<open>i\<close> on\<close>
  "enhanceContrast i data =
     (if i < length data then
        (let v = pixelValue (channel data i) (channel data (i + 1)) (channel data (i + 2))
         in enhanceContrast (i + 4) (store (store (store data (i + 2) v) (i + 1) v) i v))
      else data)"
  by pat_completeness auto
termination
  by (relation "measure (\<lambda>(i, data). length data - i)") (auto simp: store_def)

declare enhanceContrast.simps [simp del]

definition binarize :: "8 word list \<Rightarrow> 8 word list" where
  "binarize data = enhanceContrast 0 data"

section \<open>Auxiliary functions for the proofs\<close>

text \<open>
  What the amount pattern and a symbol pattern match at the start of a string, written
  without backtracking: the captured text and the rest of the input.
\<close>

definition amountAt :: "jsstring \<Rightarrow> (jsstring \<times> jsstring) option" where
  "amountAt s =
     (case s of
        [] \<Rightarrow> None
      | x # xs \<Rightarrow>
          if isDigit x then
            (let ds = takeWhile isDigit s; r = dropWhile isDigit s
             in case r of
                  d # a # b # r' \<Rightarrow>
                    if d = DOT \<and> isDigit a \<and> isDigit b then Some (ds @ [d, a, b], r')
                    else Some (ds, r)
                | _ \<Rightarrow> Some (ds, r))
          else None)"

definition symbolAt :: "jschar \<Rightarrow> jsstring \<Rightarrow> (jsstring \<times> jsstring) option" where
  "symbolAt symbol s =
     (case s of
        [] \<Rightarrow> None
      | x # xs \<Rightarrow> if x = symbol then amountAt (dropWhile isSpace xs) else None)"

fun findAt :: "(jsstring \<Rightarrow> (jsstring \<times> jsstring) option) \<Rightarrow> jsstring \<Rightarrow> jsstring option" where
  \<comment> \<open>the text captured at the leftmost position where \<open>f\<close> matches\<close>
  "findAt f [] = map_option fst (f [])"
| "findAt f (x # xs) =
     (case f (x # xs) of Some (cap, rest) \<Rightarrow> Some cap | None \<Rightarrow> findAt f xs)"

fun closureOf :: "pending \<Rightarrow> Item list" where
  "closureOf (PendingFrame b) = b"
| "closureOf (PendingBarcode b) = b"

definition goodBasket :: "nat set \<Rightarrow> Item list \<Rightarrow> bool" where
  \<comment> \<open>the items that are not sample items have pairwise distinct ids, each the numeral
      of a clock reading in \<open>U\<close>\<close>
  "goodBasket U b \<longleftrightarrow>
     distinct (map item_id (filter (\<lambda>it. it \<notin> set SAMPLE_ITEMS) b))
     \<and> (\<forall>it\<in>set b. it \<notin> set SAMPLE_ITEMS \<longrightarrow> item_id it \<in> numberToString ` U)"

definition sessionInv :: "nat set \<Rightarrow> Session \<Rightarrow> bool" where
  \<comment> \<open>the basket and the basket of every pending closure are good\<close>
  "sessionInv U s \<longleftrightarrow>
     goodBasket U (basket (ui s)) \<and> (\<forall>p\<in>set (pending s). goodBasket U (closureOf p))"

fun binarizePixels :: "8 word list \<Rightarrow> 8 word list" where
  \<comment> \<open>the same loop, pixel by pixel\<close>
  "binarizePixels (r # g # b # a # rest) =
     (let v = pixelValue (Fin (of_nat (unat r))) (Fin (of_nat (unat g))) (Fin (of_nat (unat b)))
      in v # v # v # a # binarizePixels rest)"
| "binarizePixels [r, g, b] =
     (let v = pixelValue (Fin (of_nat (unat r))) (Fin (of_nat (unat g))) (Fin (of_nat (unat b)))
      in [v, v, v])"
| "binarizePixels [r, g] = [0, 0]"
| "binarizePixels [r] = [0]"
| "binarizePixels [] = []"

section \<open>Rounding to binary64\<close>

lemma ilog2_bounds:
  assumes "0 < a"
  shows "2 powi (ilog2 a) \<le> a \<and> a < 2 powi (ilog2 a + 1)"
proof (cases "1 \<le> a")
  case True
  let ?n = "\<lfloor>a\<rfloor>"
  have n: "0 < ?n" using True by simp
  from bitlen_bounds[OF n] have b: "2 ^ nat (bitlen ?n - 1) \<le> ?n" "?n < 2 ^ nat (bitlen ?n)"
    by simp_all
  have k: "1 \<le> bitlen ?n" using n by (simp add: bitlen_alt_def)
  have lo: "(2::rat) powi (bitlen ?n - 1) \<le> a"
  proof -
    have "(2::rat) powi (bitlen ?n - 1) = of_int (2 ^ nat (bitlen ?n - 1))"
      using k by (simp add: power_int_nonneg_exp)
    also have "\<dots> \<le> of_int ?n" using b(1) by (simp only: of_int_le_iff)
    also have "\<dots> \<le> a" by simp
    finally show ?thesis .
  qed
  have hi: "a < (2::rat) powi (bitlen ?n)"
  proof -
    have "a < of_int (?n + 1)" by linarith
    also have "\<dots> \<le> of_int (2 ^ nat (bitlen ?n))" using b(2) by (simp only: of_int_le_iff)
    also have "\<dots> = (2::rat) powi (bitlen ?n)" using k by (simp add: power_int_nonneg_exp)
    finally show ?thesis .
  qed
  show ?thesis using lo hi True by (simp add: ilog2_def)
next
  case False
  let ?x = "1 / a"
  let ?z = "\<lceil>?x\<rceil> - 1"
  let ?k = "bitlen ?z"
  have x: "1 < ?x" using False assms by simp
  have z: "0 < ?z" using x by linarith
  from bitlen_bounds[OF z] have b: "2 ^ nat (?k - 1) \<le> ?z" "?z < 2 ^ nat ?k"
    by simp_all
  have k: "1 \<le> ?k" using z by (simp add: bitlen_alt_def)
  have lo: "(2::rat) powi (- ?k) \<le> a"
  proof -
    have "?x \<le> of_int (?z + 1)" by simp
    also have "\<dots> \<le> of_int (2 ^ nat ?k)" using b(2) by (simp only: of_int_le_iff)
    also have "\<dots> = (2::rat) powi ?k" using k by (simp add: power_int_nonneg_exp)
    finally have "1 / a \<le> (2::rat) powi ?k" .
    then have "1 \<le> (2::rat) powi ?k * a" using assms by (simp add: field_simps)
    then have "1 / (2::rat) powi ?k \<le> a" by (simp add: field_simps)
    then show ?thesis by (simp add: power_int_minus_divide)
  qed
  have hi: "a < (2::rat) powi (- ?k + 1)"
  proof -
    have "(2::rat) powi (?k - 1) = of_int (2 ^ nat (?k - 1))"
      using k by (simp add: power_int_nonneg_exp)
    also have "\<dots> \<le> of_int ?z" using b(1) by (simp only: of_int_le_iff)
    also have "\<dots> < ?x" by linarith
    finally have "(2::rat) powi (?k - 1) < 1 / a" .
    then have "(2::rat) powi (?k - 1) * a < 1" using assms by (simp add: field_simps)
    then have "a < 1 / (2::rat) powi (?k - 1)" by (simp add: field_simps)
    also have "\<dots> = (2::rat) powi (- (?k - 1))" by (rule power_int_minus_divide[symmetric])
    finally show ?thesis by simp
  qed
  show ?thesis using lo hi False by (simp add: ilog2_def)
qed

lemma pow2_less_iff: "(2::rat) powi m < 2 powi n \<longleftrightarrow> m < n"
proof
  assume l: "(2::rat) powi m < 2 powi n"
  show "m < n"
  proof (rule ccontr)
    assume "\<not> m < n"
    then have "(2::rat) powi n \<le> 2 powi m" by (intro power_int_increasing) simp_all
    then show False using l by simp
  qed
next
  assume "m < n"
  then show "(2::rat) powi m < 2 powi n" by (intro power_int_strict_increasing) simp_all
qed

lemma pow2_le_iff: "(2::rat) powi m \<le> 2 powi n \<longleftrightarrow> m \<le> n"
  using pow2_less_iff[of n m] by (auto simp: not_less[symmetric])

lemma pow2_pos: "0 < (2::rat) powi e"
  by simp

lemma pow2_add: "(2::rat) powi (m + n) = 2 powi m * 2 powi n"
  by (simp add: power_int_add)

lemma ilog2_unique:
  assumes "0 < a" "2 powi e \<le> a" "a < 2 powi (e + 1)"
  shows "ilog2 a = e"
proof -
  from ilog2_bounds[OF assms(1)] have b: "2 powi (ilog2 a) \<le> a" "a < 2 powi (ilog2 a + 1)"
    by simp_all
  have "(2::rat) powi e < 2 powi (ilog2 a + 1)" using assms(2) b(2) by linarith
  then have 1: "e < ilog2 a + 1" by (simp only: pow2_less_iff)
  have "(2::rat) powi (ilog2 a) < 2 powi (e + 1)" using assms(3) b(1) by linarith
  then have 2: "ilog2 a < e + 1" by (simp only: pow2_less_iff)
  show ?thesis using 1 2 by linarith
qed

lemma rhe_cert:
  assumes "\<bar>m - of_int n\<bar> < 1 / 2 \<or> (\<bar>m - of_int n\<bar> = 1 / 2 \<and> even n)"
  shows "rhe m = n"
proof -
  consider "\<bar>m - of_int n\<bar> < 1 / 2" | "m = of_int n + 1 / 2" "even n"
    | "m = of_int n - 1 / 2" "even n"
    using assms by (auto simp: abs_if split: if_splits)
  then show ?thesis
  proof cases
    case 1
    then consider "of_int n \<le> m" "m < of_int n + 1 / 2" | "m < of_int n" "of_int n - 1 / 2 < m"
      by (auto simp: abs_if split: if_splits)
    then show ?thesis
    proof cases
      case 1
      then have "\<lfloor>m\<rfloor> = n" by linarith
      then show ?thesis using 1 by (simp add: rhe_def Let_def)
    next
      case 2
      then have "\<lfloor>m\<rfloor> = n - 1" by linarith
      then show ?thesis using 2 by (simp add: rhe_def Let_def)
    qed
  next
    case 2
    then have "\<lfloor>m\<rfloor> = n" by linarith
    then show ?thesis using 2 by (simp add: rhe_def Let_def)
  next
    case 3
    then have "\<lfloor>m\<rfloor> = n - 1" by linarith
    then show ?thesis using 3 by (simp add: rhe_def Let_def)
  qed
qed

lemma rhe_near: "\<bar>m - of_int (rhe m)\<bar> \<le> 1 / 2"
proof -
  define f where "f = \<lfloor>m\<rfloor>"
  have f: "of_int f \<le> m" "m < of_int f + 1" unfolding f_def by linarith+
  have "rhe m = (if m - of_int f < 1 / 2 then f else if 1 / 2 < m - of_int f then f + 1
                 else if even f then f else f + 1)"
    by (simp add: rhe_def Let_def f_def)
  then show ?thesis using f by (auto simp: abs_if)
qed

lemma round64_not_NaN: "round64 q \<noteq> NaN"
  by (simp add: round64_def Let_def)

lemma round64_cert:
  assumes a: "0 < a" and e: "- 1022 \<le> e"
      and lo: "2 powi e \<le> a" and hi: "a < 2 powi (e + 1)"
      and near: "\<bar>a / 2 powi (e - 52) - of_int n\<bar> < 1 / 2
                 \<or> (\<bar>a / 2 powi (e - 52) - of_int n\<bar> = 1 / 2 \<and> even n)"
      and fin: "of_int n * 2 powi (e - 52) < (2::rat) powi 1024"
  shows "round64 a = Fin (of_int n * 2 powi (e - 52))"
proof -
  have il: "ilog2 a = e" using a lo hi by (rule ilog2_unique)
  have mx: "max (ilog2 a) (- 1022) = e" using il e by simp
  have rn: "rhe (a / 2 powi (e - 52)) = n" using near by (rule rhe_cert)
  have "(2::rat) powi e = 2 powi 52 * 2 powi (e - 52)"
    by (metis add.commute diff_add_cancel pow2_add)
  then have "2 powi 52 * 2 powi (e - 52) \<le> a" using lo by simp
  then have "(2::rat) powi 52 \<le> a / 2 powi (e - 52)" by (simp add: field_simps)
  moreover have "(1::rat) \<le> 2 powi 52" by simp
  ultimately have x1: "(1::rat) \<le> a / 2 powi (e - 52)" by linarith
  have "\<bar>a / 2 powi (e - 52) - of_int n\<bar> \<le> 1 / 2" using near by auto
  then have "a / 2 powi (e - 52) - 1 / 2 \<le> of_int n" by linarith
  then have "(0::rat) < of_int n" using x1 by linarith
  then have "0 < n" by simp
  then have pos: "0 < of_int n * (2::rat) powi (e - 52)" by simp
  show ?thesis
    using a pos fin by (simp add: round64_def Let_def mx rn del: power_int_numeral)
qed

lemma round64_nat_exact:
  assumes "n < 2 ^ 53"
  shows "round64 (of_nat n) = Fin (of_nat n)"
proof (cases "n = 0")
  case True
  then show ?thesis by (simp add: round64_def)
next
  case False
  let ?a = "of_nat n :: rat"
  let ?e = "ilog2 ?a"
  have a: "0 < ?a" using False by simp
  from ilog2_bounds[OF a] have b: "2 powi ?e \<le> ?a" "?a < 2 powi (?e + 1)" by simp_all
  have "(1::rat) \<le> ?a" using False by (simp add: Suc_leI)
  then have "(2::rat) powi 0 < 2 powi (?e + 1)" using b(2) by simp
  then have "0 < ?e + 1" by (simp only: pow2_less_iff)
  then have e0: "0 \<le> ?e" by simp
  have a53: "?a < 2 ^ 53" using assms by (metis of_nat_less_iff of_nat_numeral of_nat_power)
  then have "(2::rat) powi ?e < 2 powi 53" using b(1) by simp
  then have "?e < 53" by (simp only: pow2_less_iff)
  then have e52: "?e \<le> 52" by simp
  let ?N = "int n * 2 ^ nat (52 - ?e)"
  have sc: "(2::rat) powi (?e - 52) = 1 / 2 ^ nat (52 - ?e)"
    using e52 power_int_minus_divide[of "2::rat" "52 - ?e"] by (simp add: power_int_nonneg_exp)
  have eq: "?a / 2 powi (?e - 52) = of_int ?N" by (simp add: sc)
  have bk: "of_int ?N * (2::rat) powi (?e - 52) = ?a" by (simp add: sc)
  have "round64 ?a = Fin (of_int ?N * 2 powi (?e - 52))"
  proof (rule round64_cert[OF a _ b])
    show "- 1022 \<le> ?e" using e0 by simp
    show "\<bar>?a / 2 powi (?e - 52) - of_int ?N\<bar> < 1 / 2
          \<or> (\<bar>?a / 2 powi (?e - 52) - of_int ?N\<bar> = 1 / 2 \<and> even ?N)"
      by (simp only: eq) simp
    have "?a < 2 powi 1024" using a53 by simp
    then show "of_int ?N * 2 powi (?e - 52) < (2::rat) powi 1024" by (simp only: bk)
  qed
  then show ?thesis by (simp only: bk)
qed

lemma round64_near:
  assumes lo: "2 powi (- 1022) \<le> a" and hi: "a < 2 powi 1023"
  shows "\<exists>r. round64 a = Fin r \<and> \<bar>r - a\<bar> \<le> 2 powi (ilog2 a - 53)"
proof -
  let ?e = "ilog2 a"
  let ?u = "(2::rat) powi (?e - 52)"
  let ?n = "rhe (a / ?u)"
  let ?r = "of_int ?n * ?u"
  have a: "0 < a" using lo pow2_pos[of "- 1022"] by linarith
  from ilog2_bounds[OF a] have b: "2 powi ?e \<le> a" "a < 2 powi (?e + 1)" by simp_all
  have "(2::rat) powi (- 1022) < 2 powi (?e + 1)" using lo b(2) by linarith
  then have "- 1022 < ?e + 1" by (simp only: pow2_less_iff)
  then have e1: "- 1022 \<le> ?e" by simp
  have "(2::rat) powi ?e < 2 powi 1023" using hi b(1) by linarith
  then have e2: "?e < 1023" by (simp only: pow2_less_iff)
  have mx: "max ?e (- 1022) = ?e" using e1 by simp
  have u: "0 < ?u" by simp
  have half: "?u / 2 = 2 powi (?e - 53)"
    using pow2_add[of "?e - 53" 1] by simp
  have "\<bar>?r - a\<bar> = \<bar>of_int ?n - a / ?u\<bar> * ?u"
  proof -
    have "?r - a = (of_int ?n - a / ?u) * ?u" by (simp add: field_simps)
    then show ?thesis using u by (simp add: abs_mult)
  qed
  also have "\<dots> \<le> (1 / 2) * ?u"
    using rhe_near[of "a / ?u"] u by (intro mult_right_mono) (simp_all add: abs_minus_commute)
  finally have err: "\<bar>?r - a\<bar> \<le> 2 powi (?e - 53)" using half by simp
  have "?e - 53 < ?e" by simp
  then have small: "(2::rat) powi (?e - 53) < 2 powi ?e" by (simp only: pow2_less_iff)
  have bd: "a - 2 powi (?e - 53) \<le> ?r" "?r \<le> a + 2 powi (?e - 53)"
    using err by linarith+
  have pos: "0 < ?r" using bd(1) b(1) small by linarith
  have "?e - 53 \<le> 969" using e2 by simp
  then have "(2::rat) powi (?e - 53) \<le> 2 powi 969" by (simp only: pow2_le_iff)
  moreover have "(2::rat) powi 1023 + 2 powi 969 < 2 powi 1024" by simp
  ultimately have fin: "?r < 2 powi 1024" using bd(2) hi by linarith
  have "round64 a = Fin ?r"
    using a pos fin by (simp add: round64_def Let_def mx del: power_int_numeral)
  then show ?thesis using err by blast
qed

section \<open>The matcher on the patterns of the price extractor\<close>

lemma isSpace_not_isDigit: "isSpace c \<Longrightarrow> \<not> isDigit c"
  by (auto simp: isSpace_def isDigit_def word_le_nat_alt)

lemma ms_Star_Digit_Cons:
  "ms (Star Digit) (g, x # xs) =
     (if isDigit x then ms (Star Digit) (g, xs) @ [(g, x # xs)] else [(g, x # xs)])"
  by simp

lemma ms_Star_Space_Cons:
  "ms (Star Space) (g, x # xs) =
     (if isSpace x then ms (Star Space) (g, xs) @ [(g, x # xs)] else [(g, x # xs)])"
  by simp

lemma ms_Star_Digit_shape:
  "\<exists>rest. ms (Star Digit) (g, s) = (g, dropWhile isDigit s) # rest
      \<and> list_all (\<lambda>(g', t). g' = g \<and> (\<exists>c u. t = c # u \<and> isDigit c)) rest"
proof (induction s)
  case Nil
  show ?case by simp
next
  case (Cons x xs)
  show ?case
  proof (cases "isDigit x")
    case True
    from Cons obtain rest where
      r: "ms (Star Digit) (g, xs) = (g, dropWhile isDigit xs) # rest"
         "list_all (\<lambda>(g', t). g' = g \<and> (\<exists>c u. t = c # u \<and> isDigit c)) rest"
      by blast
    show ?thesis
      unfolding ms_Star_Digit_Cons using True r by simp
  next
    case False
    then show ?thesis unfolding ms_Star_Digit_Cons by simp
  qed
qed

lemma ms_Star_Space_shape:
  "\<exists>rest. ms (Star Space) (g, s) = (g, dropWhile isSpace s) # rest
      \<and> list_all (\<lambda>(g', t). g' = g \<and> (\<exists>c u. t = c # u \<and> isSpace c)) rest"
proof (induction s)
  case Nil
  show ?case by simp
next
  case (Cons x xs)
  show ?case
  proof (cases "isSpace x")
    case True
    from Cons obtain rest where
      r: "ms (Star Space) (g, xs) = (g, dropWhile isSpace xs) # rest"
         "list_all (\<lambda>(g', t). g' = g \<and> (\<exists>c u. t = c # u \<and> isSpace c)) rest"
      by blast
    show ?thesis
      unfolding ms_Star_Space_Cons using True r by simp
  next
    case False
    then show ?thesis unfolding ms_Star_Space_Cons by simp
  qed
qed

lemma ms_frac:
  "ms (Opt (Seq (Chr DOT) (Seq Digit Digit))) (g, r) =
     (case r of
        d # a # b # r' \<Rightarrow>
          if d = DOT \<and> isDigit a \<and> isDigit b then [(g, r'), (g, r)] else [(g, r)]
      | _ \<Rightarrow> [(g, r)])"
  by (auto split: list.split)

lemma ms_frac_hd:
  "\<exists>tl. ms (Opt (Seq (Chr DOT) (Seq Digit Digit))) (g, r) =
      (case r of
        d # a # b # r' \<Rightarrow>
          if d = DOT \<and> isDigit a \<and> isDigit b then (g, r') else (g, r)
      | _ \<Rightarrow> (g, r)) # tl"
  unfolding ms_frac by (auto split: list.split)

lemma ms_body_None:
  "s = [] \<or> \<not> isDigit (hd s) \<Longrightarrow>
   ms (Seq (Plus Digit) (Opt (Seq (Chr DOT) (Seq Digit Digit)))) (g, s) = []"
  by (cases s) (auto simp: Plus_def)

lemma ms_body_Some:
  assumes "isDigit x"
  shows "\<exists>tl. ms (Seq (Plus Digit) (Opt (Seq (Chr DOT) (Seq Digit Digit)))) (g, x # xs) =
     (case dropWhile isDigit xs of
        d # a # b # r' \<Rightarrow>
          if d = DOT \<and> isDigit a \<and> isDigit b then (g, r') else (g, dropWhile isDigit xs)
      | _ \<Rightarrow> (g, dropWhile isDigit xs)) # tl"
proof -
  obtain rest where r: "ms (Star Digit) (g, xs) = (g, dropWhile isDigit xs) # rest"
    using ms_Star_Digit_shape by blast
  have p: "ms (Plus Digit) (g, x # xs) = (g, dropWhile isDigit xs) # rest"
    using assms r by (simp add: Plus_def del: ms.simps(7))
  obtain tl where t: "ms (Opt (Seq (Chr DOT) (Seq Digit Digit))) (g, dropWhile isDigit xs) =
      (case dropWhile isDigit xs of
        d # a # b # r' \<Rightarrow>
          if d = DOT \<and> isDigit a \<and> isDigit b then (g, r') else (g, dropWhile isDigit xs)
      | _ \<Rightarrow> (g, dropWhile isDigit xs)) # tl"
    using ms_frac_hd by blast
  have "ms (Seq (Plus Digit) (Opt (Seq (Chr DOT) (Seq Digit Digit)))) (g, x # xs)
      = concat (map (ms (Opt (Seq (Chr DOT) (Seq Digit Digit)))) ((g, dropWhile isDigit xs) # rest))"
    using p by (simp del: ms.simps(5))
  then show ?thesis using t by (simp del: ms.simps)
qed

lemma ms_amount_None:
  "amountAt s = None \<Longrightarrow> ms amountRx (g, s) = []"
  unfolding amountRx_def
  by (subst ms.simps(6), subst ms_body_None)
     (auto simp: amountAt_def Let_def split: list.splits if_splits)

lemma take_prefix_len: "take (length (p @ r) - length r) (p @ r) = p"
  by simp

lemma ms_amount_Some:
  assumes "amountAt s = Some (cap, rest)"
  shows "\<exists>tl. ms amountRx (g, s) = (Some cap, rest) # tl"
proof -
  from assms obtain x xs where s: "s = x # xs" and x: "isDigit x"
    by (cases s) (auto simp: amountAt_def split: if_splits)
  let ?body = "Seq (Plus Digit) (Opt (Seq (Chr DOT) (Seq Digit Digit)))"
  let ?r = "dropWhile isDigit xs"
  let ?ds = "x # takeWhile isDigit xs"
  have split: "s = ?ds @ ?r" using s by simp
  have tw: "takeWhile isDigit s = ?ds" "dropWhile isDigit s = ?r" using s x by simp_all
  obtain tl where b: "ms ?body (g, x # xs) =
     (case ?r of
        d # a # b # r' \<Rightarrow>
          if d = DOT \<and> isDigit a \<and> isDigit b then (g, r') else (g, ?r)
      | _ \<Rightarrow> (g, ?r)) # tl"
    using ms_body_Some[OF x] by blast
  show ?thesis
  proof (cases "\<exists>a b r'. ?r = DOT # a # b # r' \<and> isDigit a \<and> isDigit b")
    case True
    then obtain a b r' where r: "?r = DOT # a # b # r'" and ab: "isDigit a" "isDigit b" by blast
    have cr: "cap = ?ds @ [DOT, a, b]" "rest = r'"
      using assms s x r ab by (auto simp: amountAt_def Let_def)
    have hd: "ms ?body (g, s) = (g, r') # tl" using b r ab s by (simp del: ms.simps)
    have "s = (?ds @ [DOT, a, b]) @ r'" using split r by simp
    then have "take (length s - length r') s = ?ds @ [DOT, a, b]"
      using take_prefix_len[of "?ds @ [DOT, a, b]" r'] by simp
    then show ?thesis unfolding amountRx_def using hd cr
      by (simp del: ms.simps(4) ms.simps(5) ms.simps(7))
  next
    case False
    have cr: "cap = ?ds" "rest = ?r"
      using assms s x False tw by (auto simp: amountAt_def Let_def split: list.splits if_splits)
    have "(case ?r of
        d # a # b # r' \<Rightarrow>
          if d = DOT \<and> isDigit a \<and> isDigit b then (g, r') else (g, ?r)
      | _ \<Rightarrow> (g, ?r)) = (g, ?r)"
      using False by (auto split: list.splits)
    then have hd: "ms ?body (g, s) = (g, ?r) # tl"
      using b s by (simp del: ms.simps)
    have "take (length s - length ?r) s = ?ds"
      using take_prefix_len[of ?ds ?r] split by simp
    then show ?thesis unfolding amountRx_def using hd cr
      by (simp del: ms.simps(4) ms.simps(5) ms.simps(7))
  qed
qed

lemma ms_amount_after_space:
  "list_all (\<lambda>(g', t). g' = g \<and> (\<exists>c u. t = c # u \<and> isSpace c)) rest \<Longrightarrow>
   concat (map (ms amountRx) rest) = []"
proof (induction rest)
  case Nil
  show ?case by simp
next
  case (Cons st rest)
  obtain g' t where st: "st = (g', t)" by (cases st)
  from Cons.prems st obtain c u where t: "t = c # u" "isSpace c" by auto
  have "amountAt t = None" using t isSpace_not_isDigit by (simp add: amountAt_def)
  then have "ms amountRx (g', t) = []" by (rule ms_amount_None)
  then show ?case using Cons st by simp
qed

lemma ms_symbol_eq:
  "ms (symbolRx symbol) (g, s) =
     (case s of [] \<Rightarrow> []
      | x # xs \<Rightarrow> if x = symbol then ms amountRx (g, dropWhile isSpace xs) else [])"
proof (cases s)
  case Nil
  then show ?thesis by (simp add: symbolRx_def)
next
  case (Cons x xs)
  obtain rest where r: "ms (Star Space) (g, xs) = (g, dropWhile isSpace xs) # rest"
    "list_all (\<lambda>(g', t). g' = g \<and> (\<exists>c u. t = c # u \<and> isSpace c)) rest"
    using ms_Star_Space_shape by blast
  have "ms (Seq (Star Space) amountRx) (g, xs) = ms amountRx (g, dropWhile isSpace xs)"
    using r ms_amount_after_space[OF r(2)] by (simp del: ms.simps(7))
  then show ?thesis using Cons unfolding symbolRx_def
    by (subst ms.simps(4)) (simp del: ms.simps(4) ms.simps(7))
qed

lemma ms_symbol_None: "symbolAt symbol s = None \<Longrightarrow> ms (symbolRx symbol) (g, s) = []"
  unfolding ms_symbol_eq
  by (auto simp: symbolAt_def ms_amount_None split: list.splits if_splits)

lemma ms_symbol_Some:
  "symbolAt symbol s = Some (cap, rest) \<Longrightarrow>
   \<exists>tl. ms (symbolRx symbol) (g, s) = (Some cap, rest) # tl"
  unfolding ms_symbol_eq
  by (auto simp: symbolAt_def ms_amount_Some split: list.splits if_splits)

lemma jsmatch_via:
  assumes N: "\<And>g s. f s = None \<Longrightarrow> ms r (g, s) = []"
      and S: "\<And>g s cap rest. f s = Some (cap, rest) \<Longrightarrow> \<exists>tl. ms r (g, s) = (Some cap, rest) # tl"
  shows "map_option group1 (jsmatch r s) = map_option Some (findAt f s)"
proof (induction s)
  case Nil
  show ?case
  proof (cases "f []")
    case None
    then show ?thesis using N[OF None] by simp
  next
    case (Some p)
    obtain cap rest where p: "p = (cap, rest)" by (cases p)
    from S[of "[]" cap rest] Some p obtain tl where "ms r (None, []) = (Some cap, rest) # tl"
      by blast
    then show ?thesis using Some p by simp
  qed
next
  case (Cons x xs)
  show ?case
  proof (cases "f (x # xs)")
    case None
    then show ?thesis using N[OF None] Cons by simp
  next
    case (Some p)
    obtain cap rest where p: "p = (cap, rest)" by (cases p)
    from S[of "x # xs" cap rest] Some p obtain tl where "ms r (None, x # xs) = (Some cap, rest) # tl"
      by blast
    then show ?thesis using Some p by simp
  qed
qed

lemma group1_amount: "map_option group1 (jsmatch amountRx s) = map_option Some (findAt amountAt s)"
  by (rule jsmatch_via) (auto simp: ms_amount_None ms_amount_Some)

lemma group1_symbol:
  "map_option group1 (jsmatch (symbolRx symbol) s) = map_option Some (findAt (symbolAt symbol) s)"
  by (rule jsmatch_via) (auto simp: ms_symbol_None ms_symbol_Some)

lemma isDigit_facts:
  "isDigit c \<Longrightarrow> \<not> isSpace c \<and> c \<noteq> MINUS_SIGN \<and> c \<noteq> PLUS_SIGN \<and> c \<noteq> DOT \<and> c \<noteq> 0x49
     \<and> c \<noteq> DOLLAR \<and> c \<noteq> EURO \<and> c \<noteq> RUPEE \<and> c \<noteq> POUND"
  by (auto simp: isSpace_def isDigit_def MINUS_SIGN_def PLUS_SIGN_def DOT_def DOLLAR_def EURO_def
        RUPEE_def POUND_def word_le_nat_alt)

lemma js_Infinity_hd: "js ''Infinity'' = 0x49 # js ''nfinity''"
  by (simp add: js_def)

lemma unsignedDecimal_digit: "isDigit c \<Longrightarrow> \<exists>v. unsignedDecimal (c # cs) = Some v"
  by (simp add: unsignedDecimal_def Let_def split: list.split)

lemma parseFloat_plain:
  assumes "isDigit c" "unsignedDecimal (c # cs) = Some v"
  shows "parseFloat (c # cs) = round64 v"
proof -
  have "take 8 (c # cs) \<noteq> js ''Infinity''"
    using isDigit_facts[OF assms(1)] by (simp add: js_Infinity_hd)
  then show ?thesis
    using isDigit_facts[OF assms(1)] assms(2) by (simp add: parseFloat_def Let_def)
qed

lemma parseFloat_digit_leading:
  assumes "isDigit c"
  shows "\<not> isNaN (parseFloat (c # cs))"
proof -
  obtain v where v: "unsignedDecimal (c # cs) = Some v"
    using unsignedDecimal_digit[OF assms] by blast
  have "parseFloat (c # cs) = round64 v" using assms v by (rule parseFloat_plain)
  then show ?thesis using round64_not_NaN[of v] by (cases "round64 v") simp_all
qed

lemma foldl_digits:
  "foldl (\<lambda>acc c. 10 * acc + digitVal c) a ys =
     a * 10 ^ length ys + foldl (\<lambda>acc c. 10 * acc + digitVal c) 0 ys"
proof (induction ys rule: rev_induct)
  case Nil
  show ?case by simp
next
  case (snoc y ys)
  let ?F = "\<lambda>acc c. 10 * acc + digitVal c"
  have "foldl ?F a (ys @ [y]) = 10 * foldl ?F a ys + digitVal y" by simp
  also have "\<dots> = 10 * (a * 10 ^ length ys + foldl ?F 0 ys) + digitVal y"
    using snoc by simp
  also have "\<dots> = a * 10 ^ length (ys @ [y]) + (10 * foldl ?F 0 ys + digitVal y)"
    by (simp add: algebra_simps)
  also have "10 * foldl ?F 0 ys + digitVal y = foldl ?F 0 (ys @ [y])" by simp
  finally show ?case .
qed

lemma digitsVal_append: "digitsVal (xs @ ys) = digitsVal xs * 10 ^ length ys + digitsVal ys"
  unfolding digitsVal_def foldl_append by (rule foldl_digits)

lemma parseFloat_digits:
  assumes "ds \<noteq> []" "list_all isDigit ds"
  shows "parseFloat ds = round64 (of_nat (digitsVal ds))"
proof -
  obtain c cs where ds: "ds = c # cs" using assms(1) by (cases ds) auto
  then have c: "isDigit c" using assms(2) by simp
  have tw: "takeWhile isDigit ds = ds" "dropWhile isDigit ds = []"
    using assms(2) by (simp_all add: list_all_iff)
  have u: "unsignedDecimal ds = Some (of_nat (digitsVal ds))"
    using assms(1) by (simp only: unsignedDecimal_def Let_def tw) simp
  show ?thesis using parseFloat_plain[OF c, of cs] u ds by simp
qed

lemma parseFloat_decimal2:
  assumes "ds \<noteq> []" "list_all isDigit ds" "isDigit a" "isDigit b"
  shows "parseFloat (ds @ [DOT, a, b]) =
           round64 (of_nat (digitsVal ds) + of_nat (10 * digitVal a + digitVal b) / 100)"
proof -
  obtain c cs where ds: "ds = c # cs" using assms(1) by (cases ds) auto
  then have c: "isDigit c" using assms(2) by simp
  have nd: "\<not> isDigit DOT" using isDigit_facts[of DOT] by blast
  have tw: "takeWhile isDigit (ds @ [DOT, a, b]) = ds" "dropWhile isDigit (ds @ [DOT, a, b]) = [DOT, a, b]"
    using assms(2) nd by (simp_all add: list_all_iff takeWhile_append2 dropWhile_append2)
  have val: "digitsVal (ds @ [a, b]) = digitsVal ds * 100 + (10 * digitVal a + digitVal b)"
    by (simp add: digitsVal_append) (simp add: digitsVal_def)
  have u: "unsignedDecimal (ds @ [DOT, a, b]) =
      Some (of_nat (digitsVal ds) + of_nat (10 * digitVal a + digitVal b) / 100)"
    using assms val
    by (simp only: unsignedDecimal_def Let_def tw)
       (simp add: exponentPart_def scale10_def add_divide_distrib)
  show ?thesis using parseFloat_plain[OF c, of "cs @ [DOT, a, b]"] u ds by simp
qed

lemma currencyPass_skip:
  "list_all (\<lambda>q. jsmatch q text = None) before \<Longrightarrow>
   currencyPass (before @ ps) text = currencyPass ps text"
  by (induction before) auto

lemma currencyPass_first:
  assumes "list_all (\<lambda>q. jsmatch q text = None) before"
      and "jsmatch p text = Some m" "group1 m = Some cap" "cap \<noteq> []" "\<not> isNaN (parseFloat cap)"
  shows "currencyPass (before @ p # after) text = Some (parseFloat cap)"
  using assms by (simp add: currencyPass_skip Let_def)

lemma amountAt_Some_digit:
  "amountAt s = Some (cap, rest) \<Longrightarrow> \<exists>c cs. cap = c # cs \<and> isDigit c"
  by (cases s) (auto simp: amountAt_def Let_def split: if_splits list.splits)

lemma amountAt_None_iff: "amountAt s = None \<longleftrightarrow> (case s of [] \<Rightarrow> True | x # _ \<Rightarrow> \<not> isDigit x)"
  by (cases s) (auto simp: amountAt_def Let_def split: if_splits list.splits)

lemma findAt_amount_None_iff: "findAt amountAt s = None \<longleftrightarrow> \<not> list_ex isDigit s"
proof (induction s)
  case Nil
  show ?case by (simp add: amountAt_def)
next
  case (Cons x xs)
  show ?case
  proof (cases "amountAt (x # xs)")
    case None
    then have "\<not> isDigit x" by (simp add: amountAt_None_iff)
    then show ?thesis using None Cons by simp
  next
    case (Some p)
    then have "isDigit x" using amountAt_None_iff[of "x # xs"] by auto
    then show ?thesis using Some by (auto split: prod.splits)
  qed
qed

lemma findAt_digit:
  assumes "\<And>s cap rest. f s = Some (cap, rest) \<Longrightarrow> \<exists>c cs. cap = c # cs \<and> isDigit c"
  shows "findAt f s = Some cap \<Longrightarrow> \<exists>c cs. cap = c # cs \<and> isDigit c"
proof (induction s)
  case Nil
  then show ?case using assms[of "[]"] by (cases "f []") auto
next
  case (Cons x xs)
  then show ?case using assms[of "x # xs"] by (cases "f (x # xs)") auto
qed

lemma symbolAt_Some_digit:
  "symbolAt symbol s = Some (cap, rest) \<Longrightarrow> \<exists>c cs. cap = c # cs \<and> isDigit c"
  by (cases s) (auto simp: symbolAt_def dest: amountAt_Some_digit split: if_splits)

lemma symbolAt_None_absent: "symbol \<notin> set s \<Longrightarrow> symbolAt symbol s = None"
  by (cases s) (auto simp: symbolAt_def)

lemma findAt_symbol_absent: "symbol \<notin> set s \<Longrightarrow> findAt (symbolAt symbol) s = None"
  by (induction s) (auto simp: symbolAt_None_absent symbolAt_def)

lemma amountAt_Some_hd: "amountAt s = Some p \<Longrightarrow> list_ex isDigit s"
  by (cases s) (auto simp: amountAt_def split: if_splits)

lemma symbolAt_nodigit: "\<not> list_ex isDigit s \<Longrightarrow> symbolAt symbol s = None"
proof (cases s)
  case Nil
  then show ?thesis by (simp add: symbolAt_def)
next
  case (Cons x xs)
  assume nd: "\<not> list_ex isDigit s"
  have "\<not> list_ex isDigit (dropWhile isSpace xs)"
    using nd Cons set_dropWhileD[of _ isSpace xs] by (auto simp: list_ex_iff)
  then have "amountAt (dropWhile isSpace xs) = None"
    using amountAt_Some_hd by (cases "amountAt (dropWhile isSpace xs)") auto
  then show ?thesis using Cons by (simp add: symbolAt_def)
qed

lemma findAt_symbol_nodigit: "\<not> list_ex isDigit s \<Longrightarrow> findAt (symbolAt symbol) s = None"
  by (induction s) (auto simp: symbolAt_nodigit)

lemma jsmatch_amount_None: "jsmatch amountRx s = None \<longleftrightarrow> \<not> list_ex isDigit s"
  using group1_amount[of s] findAt_amount_None_iff[of s]
  by (cases "jsmatch amountRx s"; cases "findAt amountAt s") auto

lemma jsmatch_amount_Some:
  "jsmatch amountRx s = Some m \<Longrightarrow> group1 m = findAt amountAt s \<and> (\<exists>c cs. group1 m = Some (c # cs) \<and> isDigit c)"
  using group1_amount[of s] findAt_digit[of amountAt s, OF amountAt_Some_digit]
  by (cases "findAt amountAt s") auto

lemma jsmatch_symbol_None: "jsmatch (symbolRx symbol) s = None \<longleftrightarrow> findAt (symbolAt symbol) s = None"
  using group1_symbol[of symbol s]
  by (cases "jsmatch (symbolRx symbol) s"; cases "findAt (symbolAt symbol) s") auto

lemma jsmatch_symbol_Some:
  "jsmatch (symbolRx symbol) s = Some m \<Longrightarrow>
     group1 m = findAt (symbolAt symbol) s \<and> (\<exists>c cs. group1 m = Some (c # cs) \<and> isDigit c)"
  using group1_symbol[of symbol s] findAt_digit[of "symbolAt symbol" s, OF symbolAt_Some_digit]
  by (cases "findAt (symbolAt symbol) s") auto

lemma patterns_eq:
  "map snd CURRENCY_PATTERNS =
     [symbolRx DOLLAR, symbolRx EURO, symbolRx RUPEE, symbolRx POUND, amountRx]"
  by (simp add: CURRENCY_PATTERNS_def)

lemma pattern_capture:
  assumes "p \<in> set (map snd CURRENCY_PATTERNS)" "jsmatch p text = Some m"
  shows "\<exists>c cs. group1 m = Some (c # cs) \<and> isDigit c"
proof -
  from assms(1) consider symbol where "p = symbolRx symbol" | "p = amountRx"
    unfolding patterns_eq by auto
  then show ?thesis
  proof cases
    case 1
    then show ?thesis using assms(2) jsmatch_symbol_Some by blast
  next
    case 2
    then show ?thesis using assms(2) jsmatch_amount_Some by blast
  qed
qed

lemma pattern_nodigit:
  assumes "p \<in> set (map snd CURRENCY_PATTERNS)" "\<not> list_ex isDigit text"
  shows "jsmatch p text = None"
proof -
  from assms(1) consider symbol where "p = symbolRx symbol" | "p = amountRx"
    unfolding patterns_eq by auto
  then show ?thesis
  proof cases
    case 1
    then show ?thesis using assms(2) by (simp add: jsmatch_symbol_None findAt_symbol_nodigit)
  next
    case 2
    then show ?thesis using assms(2) by (simp add: jsmatch_amount_None)
  qed
qed

lemma currencyPass_None:
  "list_all (\<lambda>q. jsmatch q text = None) ps \<Longrightarrow> currencyPass ps text = None"
  by (induction ps) auto

lemma currencyPass_some:
  assumes "\<And>p m. p \<in> set ps \<Longrightarrow> jsmatch p text = Some m \<Longrightarrow> \<exists>c cs. group1 m = Some (c # cs) \<and> isDigit c"
      and "list_ex (\<lambda>q. jsmatch q text \<noteq> None) ps"
  shows "currencyPass ps text \<noteq> None"
  using assms
proof (induction ps)
  case Nil
  then show ?case by simp
next
  case (Cons p ps)
  show ?case
  proof (cases "jsmatch p text")
    case None
    have "list_ex (\<lambda>q. jsmatch q text \<noteq> None) ps" using Cons.prems(2) None by simp
    moreover have "\<exists>c cs. group1 m = Some (c # cs) \<and> isDigit c"
      if "q \<in> set ps" "jsmatch q text = Some m" for q m
      using Cons.prems(1)[of q m] that by simp
    ultimately have "currencyPass ps text \<noteq> None" by (rule Cons.IH[rotated])
    then show ?thesis using None by simp
  next
    case (Some m)
    from Cons.prems(1)[of p m] Some obtain c cs where g: "group1 m = Some (c # cs)" "isDigit c"
      by auto
    have "\<not> isNaN (parseFloat (c # cs))" using parseFloat_digit_leading[OF g(2)] .
    then show ?thesis using Some g by simp
  qed
qed

lemma ms_fallback_None:
  "(case s of [] \<Rightarrow> True | x # _ \<Rightarrow> \<not> isDigit x) \<Longrightarrow> ms fallbackRx (g, s) = []"
  by (cases s) (auto simp: fallbackRx_def Plus_def)

lemma matchAllG_nodigit: "\<not> list_ex isDigit s \<Longrightarrow> matchAllG fallbackRx s = []"
proof (induction s)
  case Nil
  have "ms fallbackRx (None, []) = []" by (rule ms_fallback_None) simp
  then show ?case by (subst matchAllG.simps) simp
next
  case (Cons x xs)
  have "ms fallbackRx (None, x # xs) = []" using Cons.prems by (intro ms_fallback_None) simp
  then show ?case using Cons by (subst matchAllG.simps) simp
qed

lemma fallbackPass_nodigit: "\<not> list_ex isDigit s \<Longrightarrow> fallbackPass s = None"
  by (simp add: fallbackPass_def jsmatchG_def matchAllG_nodigit del: matchAllG.simps)

lemma currencyPass_digit:
  assumes "list_ex isDigit text"
  shows "currencyPass (map snd CURRENCY_PATTERNS) text \<noteq> None"
proof (rule currencyPass_some)
  show "\<exists>c cs. group1 m = Some (c # cs) \<and> isDigit c"
    if "p \<in> set (map snd CURRENCY_PATTERNS)" "jsmatch p text = Some m" for p m
    using that by (rule pattern_capture)
  have "jsmatch amountRx text \<noteq> None" using assms jsmatch_amount_None by simp
  then show "list_ex (\<lambda>q. jsmatch q text \<noteq> None) (map snd CURRENCY_PATTERNS)"
    unfolding patterns_eq by simp
qed

lemma currencyPass_nodigit:
  assumes "\<not> list_ex isDigit text"
  shows "currencyPass (map snd CURRENCY_PATTERNS) text = None"
proof (rule currencyPass_None)
  show "list_all (\<lambda>q. jsmatch q text = None) (map snd CURRENCY_PATTERNS)"
    unfolding list_all_iff using pattern_nodigit assms by blast
qed

section \<open>Amounts at the start of the text\<close>

lemma symbols_distinct:
  "DOLLAR \<noteq> EURO" "DOLLAR \<noteq> RUPEE" "DOLLAR \<noteq> POUND" "EURO \<noteq> RUPEE" "EURO \<noteq> POUND"
  "RUPEE \<noteq> POUND"
  by (simp_all add: DOLLAR_def EURO_def RUPEE_def POUND_def)

lemma amountAt_digits:
  assumes "ds \<noteq> []" "list_all isDigit ds"
  shows "amountAt ds = Some (ds, [])"
proof -
  obtain c cs where ds: "ds = c # cs" using assms(1) by (cases ds) auto
  have tw: "takeWhile isDigit ds = ds" "dropWhile isDigit ds = []"
    using assms(2) by (simp_all add: list_all_iff)
  have "isDigit c" using assms(2) ds by simp
  then show ?thesis
    unfolding amountAt_def Let_def tw using ds by simp
qed

lemma amountAt_decimal2:
  assumes "ds \<noteq> []" "list_all isDigit ds" "isDigit a" "isDigit b"
  shows "amountAt (ds @ [DOT, a, b]) = Some (ds @ [DOT, a, b], [])"
proof -
  obtain c cs where ds: "ds = c # cs" using assms(1) by (cases ds) auto
  have nd: "\<not> isDigit DOT" using isDigit_facts[of DOT] by blast
  have tw: "takeWhile isDigit (ds @ [DOT, a, b]) = ds"
    "dropWhile isDigit (ds @ [DOT, a, b]) = [DOT, a, b]"
    using assms(2) nd by (simp_all add: list_all_iff takeWhile_append2 dropWhile_append2)
  have "isDigit c" using assms(2) ds by simp
  then show ?thesis
    unfolding amountAt_def Let_def tw using ds assms(3,4) by simp
qed

lemma jsmatch_symbol_absent: "symbol \<notin> set s \<Longrightarrow> jsmatch (symbolRx symbol) s = None"
  by (simp add: jsmatch_symbol_None findAt_symbol_absent)

lemma jsmatch_symbol_prefix:
  assumes "amountAt t = Some (cap, rest)"
  shows "\<exists>m. jsmatch (symbolRx X) (X # t) = Some m \<and> group1 m = Some cap"
proof -
  from assms obtain c cs where t: "t = c # cs" "isDigit c"
    by (cases t) (auto simp: amountAt_def split: if_splits)
  then have "dropWhile isSpace t = t" using isDigit_facts[of c] by simp
  then have "findAt (symbolAt X) (X # t) = Some cap"
    using assms by (simp add: symbolAt_def)
  then show ?thesis
    using group1_symbol[of X "X # t"] by (cases "jsmatch (symbolRx X) (X # t)") auto
qed

lemma jsmatch_amount_prefix:
  assumes "amountAt t = Some (cap, rest)"
  shows "\<exists>m. jsmatch amountRx t = Some m \<and> group1 m = Some cap"
proof -
  have "findAt amountAt t = Some cap" using assms by (cases t) auto
  then show ?thesis
    using group1_amount[of t] by (cases "jsmatch amountRx t") auto
qed

lemma currencyPass_at:
  assumes "list_all (\<lambda>q. jsmatch q text = None) before"
      and "jsmatch p text = Some m" "group1 m = Some cap"
      and "\<exists>c cs. cap = c # cs \<and> isDigit c"
  shows "currencyPass (before @ p # after) text = Some (parseFloat cap)"
proof -
  from assms(4) obtain c cs where c: "cap = c # cs" "isDigit c" by blast
  have "\<not> isNaN (parseFloat cap)" using parseFloat_digit_leading[OF c(2)] c(1) by simp
  moreover have "cap \<noteq> []" using c by simp
  ultimately show ?thesis using currencyPass_first assms(1-3) by blast
qed

lemma extractPrice_at_symbol:
  assumes X: "X \<in> {DOLLAR, EURO, RUPEE, POUND}"
      and t: "\<forall>c\<in>set t. c \<notin> {DOLLAR, EURO, RUPEE, POUND}"
      and a: "amountAt t = Some (cap, rest)"
  shows "extractPrice (X # t) = Some (parseFloat cap)"
proof -
  obtain m where m: "jsmatch (symbolRx X) (X # t) = Some m" "group1 m = Some cap"
    using jsmatch_symbol_prefix[OF a] by blast
  have dg: "\<exists>c cs. cap = c # cs \<and> isDigit c" using amountAt_Some_digit[OF a] .
  have none: "jsmatch (symbolRx Y) (X # t) = None"
    if "Y \<in> {DOLLAR, EURO, RUPEE, POUND}" "Y \<noteq> X" for Y
    using that t by (intro jsmatch_symbol_absent) auto
  have cp: "currencyPass (before @ symbolRx X # after) (X # t) = Some (parseFloat cap)"
    if "list_all (\<lambda>q. jsmatch q (X # t) = None) before" for before after
    using currencyPass_at[OF that m dg] .
  have "currencyPass (map snd CURRENCY_PATTERNS) (X # t) = Some (parseFloat cap)"
  proof -
    consider "X = DOLLAR" | "X = EURO" | "X = RUPEE" | "X = POUND" using X by blast
    then show ?thesis
    proof cases
      case 1
      show ?thesis
        using cp[of "[]" "[symbolRx EURO, symbolRx RUPEE, symbolRx POUND, amountRx]"] 1
        by (simp add: patterns_eq)
    next
      case 2
      have "list_all (\<lambda>q. jsmatch q (X # t) = None) [symbolRx DOLLAR]"
        using none[of DOLLAR] 2 symbols_distinct by simp
      then show ?thesis
        using cp[of "[symbolRx DOLLAR]" "[symbolRx RUPEE, symbolRx POUND, amountRx]"] 2
        by (simp add: patterns_eq)
    next
      case 3
      have "list_all (\<lambda>q. jsmatch q (X # t) = None) [symbolRx DOLLAR, symbolRx EURO]"
        using none[of DOLLAR] none[of EURO] 3 symbols_distinct by simp
      then show ?thesis
        using cp[of "[symbolRx DOLLAR, symbolRx EURO]" "[symbolRx POUND, amountRx]"] 3
        by (simp add: patterns_eq)
    next
      case 4
      have "list_all (\<lambda>q. jsmatch q (X # t) = None) [symbolRx DOLLAR, symbolRx EURO, symbolRx RUPEE]"
        using none[of DOLLAR] none[of EURO] none[of RUPEE] 4 symbols_distinct by simp
      then show ?thesis
        using cp[of "[symbolRx DOLLAR, symbolRx EURO, symbolRx RUPEE]" "[amountRx]"] 4
        by (simp add: patterns_eq)
    qed
  qed
  then show ?thesis by (simp add: extractPrice_def)
qed

lemma extractPrice_generic:
  assumes t: "\<forall>c\<in>set t. c \<notin> {DOLLAR, EURO, RUPEE, POUND}"
      and a: "amountAt t = Some (cap, rest)"
  shows "extractPrice t = Some (parseFloat cap)"
proof -
  obtain m where m: "jsmatch amountRx t = Some m" "group1 m = Some cap"
    using jsmatch_amount_prefix[OF a] by blast
  have dg: "\<exists>c cs. cap = c # cs \<and> isDigit c" using amountAt_Some_digit[OF a] .
  have "list_all (\<lambda>q. jsmatch q t = None)
          [symbolRx DOLLAR, symbolRx EURO, symbolRx RUPEE, symbolRx POUND]"
    using t by (auto intro!: jsmatch_symbol_absent)
  from currencyPass_at[OF this m dg, of "[]"]
  have "currencyPass (map snd CURRENCY_PATTERNS) t = Some (parseFloat cap)"
    by (simp add: patterns_eq)
  then show ?thesis by (simp add: extractPrice_def)
qed

lemma digits_no_symbol:
  assumes "list_all isDigit ds"
  shows "\<forall>c\<in>set ds. c \<notin> {DOLLAR, EURO, RUPEE, POUND}"
  using assms isDigit_facts by (auto simp: list_all_iff)

lemma DOT_no_symbol: "DOT \<notin> {DOLLAR, EURO, RUPEE, POUND}"
  by (simp add: DOT_def DOLLAR_def EURO_def RUPEE_def POUND_def)

lemma parseFloat_eval:
  "parseFloat (js ''12.50'') = Fin (25 / 2)"
  "parseFloat (js ''0.00'') = Fin (0)"
  "parseFloat (js ''10000'') = Fin (10000)"
  "parseFloat (js ''5'') = Fin (5)"
  "parseFloat (js ''4821'') = Fin (4821)"
  "parseFloat (js ''12'') = Fin (12)"
  "parseFloat (js ''2.50'') = Fin (5 / 2)"
  "parseFloat (js ''0'') = Fin (0)"
proof -
  have "parseFloat (js ''12.50'') = round64 (25 / 2)"
  proof -
    have u: "unsignedDecimal (0x31 # js ''2.50'') = Some (25 / 2)"
      by (simp add: unsignedDecimal_def exponentPart_def scale10_def digitsVal_def digitVal_def js_def isDigit_def DOT_def Let_def)
    have d: "isDigit 0x31" by (simp add: isDigit_def)
    have "js ''12.50'' = 0x31 # js ''2.50''" by (simp add: js_def)
    then show ?thesis using parseFloat_plain[OF d u] by simp
  qed
  moreover have "round64 (25 / 2) = Fin (of_int 7036874417766400 * 2 powi (3 - 52))"
    by (rule round64_cert) simp_all
  ultimately show "parseFloat (js ''12.50'') = Fin (25 / 2)" by simp
next
  have "parseFloat (js ''0.00'') = round64 (0)"
  proof -
    have u: "unsignedDecimal (0x30 # js ''.00'') = Some (0)"
      by (simp add: unsignedDecimal_def exponentPart_def scale10_def digitsVal_def digitVal_def js_def isDigit_def DOT_def Let_def)
    have d: "isDigit 0x30" by (simp add: isDigit_def)
    have "js ''0.00'' = 0x30 # js ''.00''" by (simp add: js_def)
    then show ?thesis using parseFloat_plain[OF d u] by simp
  qed
  moreover have "round64 (0) = Fin (0)" by (simp add: round64_def)
  ultimately show "parseFloat (js ''0.00'') = Fin (0)" by simp
next
  have "parseFloat (js ''10000'') = round64 (10000)"
  proof -
    have u: "unsignedDecimal (0x31 # js ''0000'') = Some (10000)"
      by (simp add: unsignedDecimal_def exponentPart_def scale10_def digitsVal_def digitVal_def js_def isDigit_def DOT_def Let_def)
    have d: "isDigit 0x31" by (simp add: isDigit_def)
    have "js ''10000'' = 0x31 # js ''0000''" by (simp add: js_def)
    then show ?thesis using parseFloat_plain[OF d u] by simp
  qed
  moreover have "round64 (10000) = Fin (of_int 5497558138880000 * 2 powi (13 - 52))"
    by (rule round64_cert) simp_all
  ultimately show "parseFloat (js ''10000'') = Fin (10000)" by simp
next
  have "parseFloat (js ''5'') = round64 (5)"
  proof -
    have u: "unsignedDecimal (0x35 # js '''') = Some (5)"
      by (simp add: unsignedDecimal_def exponentPart_def scale10_def digitsVal_def digitVal_def js_def isDigit_def DOT_def Let_def)
    have d: "isDigit 0x35" by (simp add: isDigit_def)
    have "js ''5'' = 0x35 # js ''''" by (simp add: js_def)
    then show ?thesis using parseFloat_plain[OF d u] by simp
  qed
  moreover have "round64 (5) = Fin (of_int 5629499534213120 * 2 powi (2 - 52))"
    by (rule round64_cert) simp_all
  ultimately show "parseFloat (js ''5'') = Fin (5)" by simp
next
  have "parseFloat (js ''4821'') = round64 (4821)"
  proof -
    have u: "unsignedDecimal (0x34 # js ''821'') = Some (4821)"
      by (simp add: unsignedDecimal_def exponentPart_def scale10_def digitsVal_def digitVal_def js_def isDigit_def DOT_def Let_def)
    have d: "isDigit 0x34" by (simp add: isDigit_def)
    have "js ''4821'' = 0x34 # js ''821''" by (simp add: js_def)
    then show ?thesis using parseFloat_plain[OF d u] by simp
  qed
  moreover have "round64 (4821) = Fin (of_int 5300745557508096 * 2 powi (12 - 52))"
    by (rule round64_cert) simp_all
  ultimately show "parseFloat (js ''4821'') = Fin (4821)" by simp
next
  have "parseFloat (js ''12'') = round64 (12)"
  proof -
    have u: "unsignedDecimal (0x31 # js ''2'') = Some (12)"
      by (simp add: unsignedDecimal_def exponentPart_def scale10_def digitsVal_def digitVal_def js_def isDigit_def DOT_def Let_def)
    have d: "isDigit 0x31" by (simp add: isDigit_def)
    have "js ''12'' = 0x31 # js ''2''" by (simp add: js_def)
    then show ?thesis using parseFloat_plain[OF d u] by simp
  qed
  moreover have "round64 (12) = Fin (of_int 6755399441055744 * 2 powi (3 - 52))"
    by (rule round64_cert) simp_all
  ultimately show "parseFloat (js ''12'') = Fin (12)" by simp
next
  have "parseFloat (js ''2.50'') = round64 (5 / 2)"
  proof -
    have u: "unsignedDecimal (0x32 # js ''.50'') = Some (5 / 2)"
      by (simp add: unsignedDecimal_def exponentPart_def scale10_def digitsVal_def digitVal_def js_def isDigit_def DOT_def Let_def)
    have d: "isDigit 0x32" by (simp add: isDigit_def)
    have "js ''2.50'' = 0x32 # js ''.50''" by (simp add: js_def)
    then show ?thesis using parseFloat_plain[OF d u] by simp
  qed
  moreover have "round64 (5 / 2) = Fin (of_int 5629499534213120 * 2 powi (1 - 52))"
    by (rule round64_cert) simp_all
  ultimately show "parseFloat (js ''2.50'') = Fin (5 / 2)" by simp
next
  have "parseFloat (js ''0'') = round64 (0)"
  proof -
    have u: "unsignedDecimal (0x30 # js '''') = Some (0)"
      by (simp add: unsignedDecimal_def exponentPart_def scale10_def digitsVal_def digitVal_def js_def isDigit_def DOT_def Let_def)
    have d: "isDigit 0x30" by (simp add: isDigit_def)
    have "js ''0'' = 0x30 # js ''''" by (simp add: js_def)
    then show ?thesis using parseFloat_plain[OF d u] by simp
  qed
  moreover have "round64 (0) = Fin (0)" by (simp add: round64_def)
  ultimately show "parseFloat (js ''0'') = Fin (0)" by simp
qed

lemma parseFloat_eval_rounded:
  "parseFloat (js ''9007199254740993.00'') = Fin (9007199254740992)"
  "parseFloat (js ''249.95'') = Fin (4397166901801779 / 17592186044416)"
proof -
  have "parseFloat (js ''9007199254740993.00'') = round64 (9007199254740993)"
  proof -
    have u: "unsignedDecimal (0x39 # js ''007199254740993.00'') = Some (9007199254740993)"
      by (simp add: unsignedDecimal_def exponentPart_def scale10_def digitsVal_def digitVal_def js_def isDigit_def DOT_def Let_def)
    have d: "isDigit 0x39" by (simp add: isDigit_def)
    have "js ''9007199254740993.00'' = 0x39 # js ''007199254740993.00''" by (simp add: js_def)
    then show ?thesis using parseFloat_plain[OF d u] by simp
  qed
  moreover have "round64 (9007199254740993) = Fin (of_int 4503599627370496 * 2 powi (53 - 52))"
    by (rule round64_cert) simp_all
  ultimately show "parseFloat (js ''9007199254740993.00'') = Fin (9007199254740992)" by simp
next
  have "parseFloat (js ''249.95'') = round64 (4999 / 20)"
  proof -
    have u: "unsignedDecimal (0x32 # js ''49.95'') = Some (4999 / 20)"
      by (simp add: unsignedDecimal_def exponentPart_def scale10_def digitsVal_def digitVal_def js_def isDigit_def DOT_def Let_def)
    have d: "isDigit 0x32" by (simp add: isDigit_def)
    have "js ''249.95'' = 0x32 # js ''49.95''" by (simp add: js_def)
    then show ?thesis using parseFloat_plain[OF d u] by simp
  qed
  moreover have "round64 (4999 / 20) = Fin (of_int 8794333803603558 * 2 powi (7 - 52))"
    by (rule round64_cert) simp_all
  ultimately show "parseFloat (js ''249.95'') = Fin (4397166901801779 / 17592186044416)" by simp
qed

lemma amountAt_eval:
  "amountAt (js ''12.50 item #4821'') = Some (js ''12.50'', js '' item #4821'')"
  "amountAt (js ''0.00'') = Some (js ''0.00'', [])"
  "amountAt (js ''10000'') = Some (js ''10000'', [])"
  "amountAt (js ''5'') = Some (js ''5'', [])"
  "amountAt (js ''12.5'') = Some (js ''12'', js ''.5'')"
  "amountAt (js ''9007199254740993.00'') = Some (js ''9007199254740993.00'', [])"
  by (simp_all add: amountAt_def js_def isDigit_def DOT_def)

lemma no_symbol_eval:
  "\<forall>c\<in>set (js ''12.50 item #4821''). c \<notin> {DOLLAR, EURO, RUPEE, POUND}"
  "\<forall>c\<in>set (js ''0.00''). c \<notin> {DOLLAR, EURO, RUPEE, POUND}"
  "\<forall>c\<in>set (js ''10000''). c \<notin> {DOLLAR, EURO, RUPEE, POUND}"
  "\<forall>c\<in>set (js ''5''). c \<notin> {DOLLAR, EURO, RUPEE, POUND}"
  "\<forall>c\<in>set (js ''12.5''). c \<notin> {DOLLAR, EURO, RUPEE, POUND}"
  "\<forall>c\<in>set (js ''9007199254740993.00''). c \<notin> {DOLLAR, EURO, RUPEE, POUND}"
  by (simp_all add: js_def DOLLAR_def EURO_def RUPEE_def POUND_def)

lemma js_dollar: "js (CHR ''$'' # s) = DOLLAR # js s"
  by (simp add: js_def DOLLAR_def)

lemma extractPrice_currencyPass:
  "extractPrice text = currencyPass (map snd CURRENCY_PATTERNS) text"
proof (cases "list_ex isDigit text")
  case True
  then show ?thesis using currencyPass_digit[OF True] by (auto simp: extractPrice_def)
next
  case False
  then show ?thesis
    using currencyPass_nodigit[OF False] fallbackPass_nodigit[OF False]
    by (simp add: extractPrice_def)
qed

lemma jsmatch_symbol_findAt:
  assumes "findAt (symbolAt X) s = Some cap"
  shows "\<exists>m. jsmatch (symbolRx X) s = Some m \<and> group1 m = Some cap"
  using group1_symbol[of X s] assms by (cases "jsmatch (symbolRx X) s") auto

lemma findAt_eval:
  "findAt (symbolAt DOLLAR) (js ''7 $5'') = Some (js ''5'')"
  by (simp add: symbolAt_def amountAt_def js_def isDigit_def isSpace_def DOT_def DOLLAR_def)

lemma matchAllG_eval:
  "matchAllG fallbackRx (js ''0.00'') = [js ''0.00'']"
  "matchAllG fallbackRx (js ''10000'') = [js ''10000'']"
proof -
  show "matchAllG fallbackRx (js ''0.00'') = [js ''0.00'']"
    apply (subst matchAllG.simps)
    apply (simp add: fallbackRx_def Plus_def js_def isDigit_def DOT_def)
    apply (subst matchAllG.simps)
    apply (simp add: fallbackRx_def Plus_def js_def isDigit_def DOT_def)
    done
  show "matchAllG fallbackRx (js ''10000'') = [js ''10000'']"
    apply (subst matchAllG.simps)
    apply (simp add: fallbackRx_def Plus_def js_def isDigit_def DOT_def)
    apply (subst matchAllG.simps)
    apply (simp add: fallbackRx_def Plus_def js_def isDigit_def DOT_def)
    done
qed

lemma fallbackPass_range:
  assumes "fallbackPass text = Some p"
  shows "jgt p (Fin 0) \<and> jlt p (Fin 10000)"
proof -
  from assms obtain numbers rest where
    "filter (\<lambda>num. jgt num (Fin 0) \<and> jlt num (Fin 10000)) (map parseFloat numbers) = p # rest"
    by (auto simp: fallbackPass_def Let_def split: option.splits list.splits)
  then have "p \<in> set (filter (\<lambda>num. jgt num (Fin 0) \<and> jlt num (Fin 10000)) (map parseFloat numbers))"
    by simp
  then show ?thesis by simp
qed

lemma amountAt_decimal1:
  assumes "ds \<noteq> []" "list_all isDigit ds"
  shows "amountAt (ds @ [DOT, a]) = Some (ds, [DOT, a])"
proof -
  obtain c cs where ds: "ds = c # cs" using assms(1) by (cases ds) auto
  have nd: "\<not> isDigit DOT" using isDigit_facts[of DOT] by blast
  have tw: "takeWhile isDigit (ds @ [DOT, a]) = ds"
    "dropWhile isDigit (ds @ [DOT, a]) = [DOT, a]"
    using assms(2) nd by (simp_all add: list_all_iff takeWhile_append2 dropWhile_append2)
  have "isDigit c" using assms(2) ds by simp
  then show ?thesis
    unfolding amountAt_def Let_def tw using ds by simp
qed

lemma round64_rel_error:
  assumes "2 powi (- 1022) \<le> v" "v < 2 powi 1023"
  shows "\<exists>r. round64 v = Fin r \<and> \<bar>r - v\<bar> \<le> v / 2 ^ 53"
proof -
  have v: "0 < v" using assms(1) pow2_pos[of "- 1022"] by linarith
  from round64_near[OF assms] obtain r where
    r: "round64 v = Fin r" "\<bar>r - v\<bar> \<le> 2 powi (ilog2 v - 53)" by blast
  have "(2::rat) powi (ilog2 v - 53) = 2 powi (ilog2 v) / 2 ^ 53"
    using pow2_add[of "ilog2 v" "- 53"] by (simp add: power_int_minus_divide)
  also have "\<dots> \<le> v / 2 ^ 53"
    using ilog2_bounds[OF v] by (simp add: divide_right_mono)
  finally show ?thesis using r by fastforce
qed

section \<open>Properties of the price extractor\<close>

text \<open>
  C1. The patterns are tried in the order of the table, the four patterns with a currency
  symbol before the symbol-less one. The first pattern of the table that matches decides
  the result: it is the number parsed from what that pattern captured at its leftmost
  match, whatever patterns follow it. So when some pattern with a symbol matches, the
  result comes from a pattern with a symbol, also when a bare number stands earlier in
  the text; \<open>extractPrice("$12.50 item #4821")\<close> is 12.50.
\<close>

theorem extractPrice_priority:
  "map snd CURRENCY_PATTERNS = map symbolRx [DOLLAR, EURO, RUPEE, POUND] @ [amountRx]
   \<and> (map snd CURRENCY_PATTERNS = before @ p # after
        \<and> list_all (\<lambda>q. jsmatch q text = None) before \<and> jsmatch p text = Some m
      \<longrightarrow> (\<exists>cap. group1 m = Some cap \<and> extractPrice text = Some (parseFloat cap)
                \<and> currencyPass (before @ p # later) text = Some (parseFloat cap)))
   \<and> (list_ex (\<lambda>q. jsmatch q text \<noteq> None) (map symbolRx [DOLLAR, EURO, RUPEE, POUND])
      \<longrightarrow> (\<exists>q m cap. q \<in> set (map symbolRx [DOLLAR, EURO, RUPEE, POUND])
                \<and> jsmatch q text = Some m \<and> group1 m = Some cap
                \<and> extractPrice text = Some (parseFloat cap)))
   \<and> extractPrice (js ''$12.50 item #4821'') = Some (Fin (1250 / 100))"
proof -
  let ?syms = "map symbolRx [DOLLAR, EURO, RUPEE, POUND]"
  have order: "map snd CURRENCY_PATTERNS = ?syms @ [amountRx]"
    by (simp add: patterns_eq)
  have first: "\<exists>cap. group1 m = Some cap \<and> extractPrice text = Some (parseFloat cap)
                \<and> currencyPass (before @ p # later) text = Some (parseFloat cap)"
    if split: "map snd CURRENCY_PATTERNS = before @ p # after"
      and none: "list_all (\<lambda>q. jsmatch q text = None) before"
      and m: "jsmatch p text = Some m"
    for before p after m later
  proof -
    have "p \<in> set (map snd CURRENCY_PATTERNS)" using split by simp
    from pattern_capture[OF this m] obtain c cs where g: "group1 m = Some (c # cs)" "isDigit c"
      by blast
    have dg: "\<exists>c' cs'. c # cs = c' # cs' \<and> isDigit c'" using g(2) by blast
    have "currencyPass (before @ p # rest) text = Some (parseFloat (c # cs))" for rest
      using currencyPass_at[OF none m g(1) dg] .
    then show ?thesis using g(1) split by (simp add: extractPrice_def)
  qed
  have sym: "\<exists>q m cap. q \<in> set ?syms \<and> jsmatch q text = Some m \<and> group1 m = Some cap
                \<and> extractPrice text = Some (parseFloat cap)"
    if ex: "list_ex (\<lambda>q. jsmatch q text \<noteq> None) ?syms"
  proof -
    from ex have "\<exists>q\<in>set ?syms. jsmatch q text \<noteq> None" by (simp only: list_ex_iff)
    from split_list_first_prop[OF this] obtain ys q zs where
      s: "?syms = ys @ q # zs" "jsmatch q text \<noteq> None" "\<forall>y\<in>set ys. \<not> jsmatch y text \<noteq> None"
      by blast
    from s(2) obtain m where m: "jsmatch q text = Some m" by blast
    have none: "list_all (\<lambda>q. jsmatch q text = None) ys" using s(3) by (simp add: list_all_iff)
    have "map snd CURRENCY_PATTERNS = ys @ q # (zs @ [amountRx])" using order s(1) by simp
    from first[OF this none m] obtain cap where
      "group1 m = Some cap" "extractPrice text = Some (parseFloat cap)" by blast
    moreover have "q \<in> set ?syms" using s(1) by simp
    ultimately show ?thesis using m by blast
  qed
  have example: "extractPrice (js ''$12.50 item #4821'') = Some (Fin (1250 / 100))"
    using extractPrice_at_symbol[OF _ no_symbol_eval(1) amountAt_eval(1), of DOLLAR]
    by (simp add: js_dollar parseFloat_eval)
  show ?thesis using order first sym example by blast
qed

theorem extractPrice_priority_witness:
  "map snd CURRENCY_PATTERNS
     = [] @ symbolRx DOLLAR # [symbolRx EURO, symbolRx RUPEE, symbolRx POUND, amountRx]
   \<and> list_all (\<lambda>q. jsmatch q (js ''7 $5'') = None) []
   \<and> (\<exists>m. jsmatch (symbolRx DOLLAR) (js ''7 $5'') = Some m \<and> group1 m = Some (js ''5''))
   \<and> list_ex (\<lambda>q. jsmatch q (js ''7 $5'') \<noteq> None) (map symbolRx [DOLLAR, EURO, RUPEE, POUND])
   \<and> extractPrice (js ''7 $5'') = Some (Fin 5)"
proof -
  let ?T = "js ''7 $5''"
  obtain m where m: "jsmatch (symbolRx DOLLAR) ?T = Some m" "group1 m = Some (js ''5'')"
    using jsmatch_symbol_findAt[OF findAt_eval] by blast
  have split: "map snd CURRENCY_PATTERNS
     = [] @ symbolRx DOLLAR # [symbolRx EURO, symbolRx RUPEE, symbolRx POUND, amountRx]"
    by (simp add: patterns_eq)
  have none: "list_all (\<lambda>q. jsmatch q ?T = None) []" by simp
  have ex: "list_ex (\<lambda>q. jsmatch q ?T \<noteq> None) (map symbolRx [DOLLAR, EURO, RUPEE, POUND])"
    using m(1) by simp
  from extractPrice_priority[of "[]" "symbolRx DOLLAR"
      "[symbolRx EURO, symbolRx RUPEE, symbolRx POUND, amountRx]" ?T m]
  have "extractPrice ?T = Some (parseFloat (js ''5''))"
    using split none m by auto
  then show ?thesis using split none m ex by (auto simp: parseFloat_eval)
qed

text \<open>
  C2, as stated, fails: the result is a binary64 number, and the decimal value of a digit
  string need not be one. The dollar sign followed by \<open>9007199254740993.00\<close> gives
  9007199254740992.
\<close>

theorem two_fraction_digits_exact_counterexample:
  "extractPrice (DOLLAR # js ''9007199254740993.00'') = Some (Fin 9007199254740992)
   \<and> extractPrice (DOLLAR # js ''9007199254740993.00'') \<noteq> Some (Fin 9007199254740993)"
  using extractPrice_at_symbol[OF _ no_symbol_eval(6) amountAt_eval(6), of DOLLAR]
  by (simp add: parseFloat_eval_rounded)

text \<open>
  C2, amended. For each entry of the pattern table and each digit string \<open>D\<close> with
  exactly two fraction digits (one or more digits, a point, two digits), the entry's
  pattern captures the whole of \<open>D\<close> in the text made of the entry's currency symbol (none
  for the symbol-less entry) followed by \<open>D\<close>, and \<open>extractPrice\<close> returns the binary64
  number nearest to the decimal value of \<open>D\<close>: within a relative error of \<open>2^-53\<close> as long
  as the value is below \<open>2^1023\<close>, and the decimal value itself when it is an integer
  below \<open>2^53\<close>.
\<close>

theorem extractPrice_two_fraction_digits:
  assumes "(symbol, pattern)
             \<in> set (zip [[DOLLAR], [EURO], [RUPEE], [POUND], []] (map snd CURRENCY_PATTERNS))"
      and "ds \<noteq> []" "list_all isDigit ds" "isDigit a" "isDigit b"
      and "v = of_nat (digitsVal ds) + of_nat (10 * digitVal a + digitVal b) / 100"
  shows "(\<exists>m. jsmatch pattern (symbol @ ds @ [DOT, a, b]) = Some m
              \<and> group1 m = Some (ds @ [DOT, a, b]))
         \<and> extractPrice (symbol @ ds @ [DOT, a, b]) = Some (round64 v)
         \<and> (v < 2 powi 1023 \<longrightarrow> (\<exists>r. round64 v = Fin r \<and> \<bar>r - v\<bar> \<le> v / 2 ^ 53))
         \<and> (digitsVal ds < 2 ^ 53 \<and> digitVal a = 0 \<and> digitVal b = 0
              \<longrightarrow> round64 v = Fin (of_nat (digitsVal ds)))"
proof -
  let ?D = "ds @ [DOT, a, b]"
  have amt: "amountAt ?D = Some (?D, [])" using assms(2-5) by (rule amountAt_decimal2)
  have pf: "parseFloat ?D = round64 v"
    using parseFloat_decimal2[OF assms(2-5)] assms(6) by simp
  have nosym: "\<forall>c\<in>set ?D. c \<notin> {DOLLAR, EURO, RUPEE, POUND}"
    using digits_no_symbol[OF assms(3)] DOT_no_symbol isDigit_facts[OF assms(4)]
      isDigit_facts[OF assms(5)] by auto
  from assms(1) consider
      X where "X \<in> {DOLLAR, EURO, RUPEE, POUND}" "symbol = [X]" "pattern = symbolRx X"
    | "symbol = []" "pattern = amountRx"
    unfolding patterns_eq by auto
  then have main: "(\<exists>m. jsmatch pattern (symbol @ ?D) = Some m \<and> group1 m = Some ?D)
         \<and> extractPrice (symbol @ ?D) = Some (round64 v)"
  proof cases
    case 1
    show ?thesis
      using jsmatch_symbol_prefix[OF amt, of X] extractPrice_at_symbol[OF 1(1) nosym amt] pf 1
      by simp
  next
    case 2
    show ?thesis
      using jsmatch_amount_prefix[OF amt] extractPrice_generic[OF nosym amt] pf 2
      by simp
  qed
  have near: "\<exists>r. round64 v = Fin r \<and> \<bar>r - v\<bar> \<le> v / 2 ^ 53" if hi: "v < 2 powi 1023"
  proof (cases "v = 0")
    case True
    then show ?thesis by (simp add: round64_def)
  next
    case False
    define k where "k = digitsVal ds * 100 + (10 * digitVal a + digitVal b)"
    have vk: "v = of_nat k / 100" by (simp add: assms(6) k_def add_divide_distrib)
    have "k \<noteq> 0" using False vk by auto
    then have "(1::rat) \<le> of_nat k" by (simp add: Suc_leI)
    then have "1 / 100 \<le> v" by (simp add: vk divide_right_mono)
    moreover have "(2::rat) powi (- 1022) \<le> 1 / 100"
      by (simp add: power_int_minus_divide)
    ultimately have "2 powi (- 1022) \<le> v" by linarith
    then show ?thesis using hi by (rule round64_rel_error)
  qed
  have exact: "round64 v = Fin (of_nat (digitsVal ds))"
    if "digitsVal ds < 2 ^ 53" "digitVal a = 0" "digitVal b = 0"
    using round64_nat_exact[OF that(1)] that(2,3) assms(6) by simp
  show ?thesis using main near exact by blast
qed

theorem extractPrice_two_fraction_digits_witness:
  "([RUPEE], symbolRx RUPEE)
      \<in> set (zip [[DOLLAR], [EURO], [RUPEE], [POUND], []] (map snd CURRENCY_PATTERNS))
   \<and> js ''249'' \<noteq> [] \<and> list_all isDigit (js ''249'') \<and> isDigit 0x39 \<and> isDigit 0x35
   \<and> extractPrice ([RUPEE] @ js ''249'' @ [DOT, 0x39, 0x35])
       = Some (Fin (4397166901801779 / 17592186044416))
   \<and> \<bar>4397166901801779 / 17592186044416 - 24995 / 100\<bar> \<le> (24995 / 100 :: rat) / 2 ^ 53"
proof -
  have h: "([RUPEE], symbolRx RUPEE)
      \<in> set (zip [[DOLLAR], [EURO], [RUPEE], [POUND], []] (map snd CURRENCY_PATTERNS))"
    by (simp add: patterns_eq)
  have d: "js ''249'' \<noteq> []" "list_all isDigit (js ''249'')" "isDigit 0x39" "isDigit 0x35"
    by (simp_all add: js_def isDigit_def)
  have v: "(24995 / 100 :: rat)
             = of_nat (digitsVal (js ''249'')) + of_nat (10 * digitVal 0x39 + digitVal 0x35) / 100"
    by (simp add: digitsVal_def digitVal_def js_def)
  have r: "round64 (24995 / 100) = Fin (4397166901801779 / 17592186044416)"
  proof -
    have "round64 (24995 / 100) = Fin (of_int 8794333803603558 * 2 powi (7 - 52))"
      by (rule round64_cert) simp_all
    then show ?thesis by simp
  qed
  have "extractPrice ([RUPEE] @ js ''249'' @ [DOT, 0x39, 0x35]) = Some (round64 (24995 / 100))"
    using extractPrice_two_fraction_digits[OF h d v] by blast
  then show ?thesis using h d r by simp
qed

text \<open>
  C3. On the inputs \<open>"0.00"\<close> and \<open>"10000"\<close>, which hold no currency symbol,
  \<open>extractPrice\<close> returns 0 and 10000: the symbol-less pattern of the table matches in
  the first loop, whose matches are not range-checked. The second pass, which on its own
  rejects both inputs through its range filter, is never reached.
\<close>

theorem extractPrice_symbolless_unfiltered:
  "extractPrice (js ''0.00'') = Some (Fin 0) \<and> extractPrice (js ''10000'') = Some (Fin 10000)
   \<and> fallbackPass (js ''0.00'') = None \<and> fallbackPass (js ''10000'') = None"
proof -
  have "fallbackPass (js ''0.00'') = None \<and> fallbackPass (js ''10000'') = None"
    by (simp add: fallbackPass_def jsmatchG_def matchAllG_eval parseFloat_eval jgt_def)
  then show ?thesis
    using extractPrice_generic[OF no_symbol_eval(2) amountAt_eval(2)]
      extractPrice_generic[OF no_symbol_eval(3) amountAt_eval(3)]
    by (simp add: parseFloat_eval)
qed

text \<open>
  C4, as stated, fails: the fraction part of every currency pattern is optional and takes
  exactly two digits, so an amount with no or one fraction digit after a currency symbol
  does match that symbol's pattern. \<open>extractPrice("$10000")\<close> is 10000, and in
  \<open>"$12.5"\<close> the pattern captures \<open>12\<close>.
\<close>

theorem symbol_integer_NotFound_counterexample:
  "map_option group1 (jsmatch (symbolRx DOLLAR) (DOLLAR # js ''10000''))
     = Some (Some (js ''10000''))
   \<and> extractPrice (DOLLAR # js ''10000'') = Some (Fin 10000)
   \<and> extractPrice (DOLLAR # js ''10000'') \<noteq> None
   \<and> map_option group1 (jsmatch (symbolRx DOLLAR) (DOLLAR # js ''12.5''))
     = Some (Some (js ''12''))
   \<and> extractPrice (DOLLAR # js ''12.5'') = Some (Fin 12)"
  using jsmatch_symbol_prefix[OF amountAt_eval(3), of DOLLAR]
    extractPrice_at_symbol[OF _ no_symbol_eval(3) amountAt_eval(3), of DOLLAR]
    jsmatch_symbol_prefix[OF amountAt_eval(5), of DOLLAR]
    extractPrice_at_symbol[OF _ no_symbol_eval(5) amountAt_eval(5), of DOLLAR]
  by (auto simp: parseFloat_eval)

text \<open>
  C4, amended. An amount with no or one fraction digit after a currency symbol matches
  that symbol's pattern: the pattern captures the digits before the point, all of the
  amount when there is no fraction digit and its integer part when there is one. The
  number read from the captured digits is returned from the loop over the patterns, with
  no range check. So for every currency symbol \<open>S\<close>, \<open>extractPrice(S + "5")\<close> is 5,
  \<open>extractPrice(S + "10000")\<close> is 10000 and \<open>extractPrice(S + "12.5")\<close> is 12.
\<close>

theorem extractPrice_symbol_integer:
  assumes "S \<in> {DOLLAR, EURO, RUPEE, POUND}" "ds \<noteq> []" "list_all isDigit ds" "isDigit a"
  shows "(\<exists>m. jsmatch (symbolRx S) (S # ds) = Some m \<and> group1 m = Some ds)
         \<and> extractPrice (S # ds) = Some (parseFloat ds)
         \<and> (\<exists>m. jsmatch (symbolRx S) (S # ds @ [DOT, a]) = Some m \<and> group1 m = Some ds)
         \<and> extractPrice (S # ds @ [DOT, a]) = Some (parseFloat ds)
         \<and> parseFloat ds = round64 (of_nat (digitsVal ds))
         \<and> extractPrice (S # ds) = currencyPass (map snd CURRENCY_PATTERNS) (S # ds)
         \<and> extractPrice (S # js ''5'') = Some (Fin 5)
         \<and> extractPrice (S # js ''10000'') = Some (Fin 10000)
         \<and> extractPrice (S # js ''12.5'') = Some (Fin 12)"
proof -
  have amt: "amountAt ds = Some (ds, [])" using assms(2,3) by (rule amountAt_digits)
  have amt1: "amountAt (ds @ [DOT, a]) = Some (ds, [DOT, a])"
    using assms(2,3) by (rule amountAt_decimal1)
  have ns: "\<forall>c\<in>set ds. c \<notin> {DOLLAR, EURO, RUPEE, POUND}"
    using digits_no_symbol[OF assms(3)] .
  have 1: "extractPrice (S # ds) = Some (parseFloat ds)"
    using extractPrice_at_symbol[OF assms(1) ns amt] .
  have 2: "extractPrice (S # js ''5'') = Some (Fin 5)"
    using extractPrice_at_symbol[OF assms(1) no_symbol_eval(4) amountAt_eval(4)]
    by (simp add: parseFloat_eval)
  have 3: "extractPrice (S # js ''10000'') = Some (Fin 10000)"
    using extractPrice_at_symbol[OF assms(1) no_symbol_eval(3) amountAt_eval(3)]
    by (simp add: parseFloat_eval)
  have 4: "extractPrice (S # js ''12.5'') = Some (Fin 12)"
    using extractPrice_at_symbol[OF assms(1) no_symbol_eval(5) amountAt_eval(5)]
    by (simp add: parseFloat_eval)
  have 5: "extractPrice (S # ds) = currencyPass (map snd CURRENCY_PATTERNS) (S # ds)"
    by (rule extractPrice_currencyPass)
  have 6: "parseFloat ds = round64 (of_nat (digitsVal ds))"
    using assms(2,3) by (rule parseFloat_digits)
  have ns1: "\<forall>c\<in>set (ds @ [DOT, a]). c \<notin> {DOLLAR, EURO, RUPEE, POUND}"
    using ns DOT_no_symbol isDigit_facts[OF assms(4)] by auto
  have 7: "extractPrice (S # ds @ [DOT, a]) = Some (parseFloat ds)"
    using extractPrice_at_symbol[OF assms(1) ns1 amt1] .
  show ?thesis
    using 1 2 3 4 5 6 7 jsmatch_symbol_prefix[OF amt, of S] jsmatch_symbol_prefix[OF amt1, of S]
    by simp
qed

theorem extractPrice_symbol_integer_witness:
  "POUND \<in> {DOLLAR, EURO, RUPEE, POUND} \<and> js ''42'' \<noteq> [] \<and> list_all isDigit (js ''42'')
   \<and> isDigit 0x37
   \<and> extractPrice (POUND # js ''42'') = Some (Fin 42)
   \<and> extractPrice (POUND # js ''42'' @ [DOT, 0x37]) = Some (Fin 42)
   \<and> extractPrice (POUND # js ''10000'') = Some (Fin 10000)"
proof -
  have h: "POUND \<in> {DOLLAR, EURO, RUPEE, POUND}" by simp
  have d: "js ''42'' \<noteq> []" "list_all isDigit (js ''42'')" "isDigit 0x37"
    by (simp_all add: js_def isDigit_def)
  have v: "digitsVal (js ''42'') = 42" by (simp add: digitsVal_def digitVal_def js_def)
  have r: "round64 (of_nat (digitsVal (js ''42''))) = Fin 42"
    using round64_nat_exact[of 42] by (simp add: v)
  from extractPrice_symbol_integer[OF h d]
  have "extractPrice (POUND # js ''42'') = Some (parseFloat (js ''42''))"
    "extractPrice (POUND # js ''42'' @ [DOT, 0x37]) = Some (parseFloat (js ''42''))"
    "parseFloat (js ''42'') = round64 (of_nat (digitsVal (js ''42'')))"
    "extractPrice (POUND # js ''10000'') = Some (Fin 10000)"
    by blast+
  then show ?thesis using h d r by simp
qed

text \<open>
  C5. \<open>extractPrice\<close> applied to the euro sign followed by \<open>0.00\<close> is 0: the dollar pattern does not match, the euro
  pattern captures \<open>0.00\<close>, and its value is returned although it is not greater than 0,
  which the filter of the second pass would require.
\<close>

theorem extractPrice_euro_zero:
  "jsmatch (symbolRx DOLLAR) (EURO # js ''0.00'') = None
   \<and> (\<exists>m. jsmatch (symbolRx EURO) (EURO # js ''0.00'') = Some m \<and> group1 m = Some (js ''0.00''))
   \<and> extractPrice (EURO # js ''0.00'') = Some (Fin 0)
   \<and> \<not> jgt (Fin 0) (Fin 0)"
proof -
  have "DOLLAR \<notin> set (EURO # js ''0.00'')"
    using no_symbol_eval(2) symbols_distinct by auto
  then have "jsmatch (symbolRx DOLLAR) (EURO # js ''0.00'') = None"
    by (rule jsmatch_symbol_absent)
  then show ?thesis
    using jsmatch_symbol_prefix[OF amountAt_eval(2), of EURO]
      extractPrice_at_symbol[OF _ no_symbol_eval(2) amountAt_eval(2), of EURO]
    by (simp add: parseFloat_eval jgt_def)
qed

text \<open>
  C6. \<open>extractPrice\<close> returns \<open>null\<close> exactly for the strings without a decimal digit.
  As soon as the text holds a digit, the symbol-less pattern of the table matches it, so
  the loop over the patterns returns a value at that pattern at the latest: the value
  that pattern captures when no pattern with a symbol matches. The result of
  \<open>extractPrice\<close> is always the result of that loop: the second pass and its range
  filter never decide it.
\<close>

theorem extractPrice_NotFound_iff:
  "(extractPrice text = None \<longleftrightarrow> \<not> list_ex isDigit text)
   \<and> (list_ex isDigit text \<longrightarrow> jsmatch amountRx text \<noteq> None)
   \<and> (list_ex isDigit text
        \<and> list_all (\<lambda>q. jsmatch q text = None) (map symbolRx [DOLLAR, EURO, RUPEE, POUND])
      \<longrightarrow> (\<exists>m cap. jsmatch amountRx text = Some m \<and> group1 m = Some cap
                  \<and> extractPrice text = Some (parseFloat cap)))
   \<and> extractPrice text = currencyPass (map snd CURRENCY_PATTERNS) text"
proof -
  have pass: "extractPrice text = currencyPass (map snd CURRENCY_PATTERNS) text"
    by (rule extractPrice_currencyPass)
  have iff: "extractPrice text = None \<longleftrightarrow> \<not> list_ex isDigit text"
  proof (cases "list_ex isDigit text")
    case True
    then show ?thesis using currencyPass_digit[OF True] pass by simp
  next
    case False
    then show ?thesis using currencyPass_nodigit[OF False] pass by simp
  qed
  have gen: "jsmatch amountRx text \<noteq> None" if "list_ex isDigit text"
    using that by (simp add: jsmatch_amount_None)
  have val: "\<exists>m cap. jsmatch amountRx text = Some m \<and> group1 m = Some cap
                  \<and> extractPrice text = Some (parseFloat cap)"
    if d: "list_ex isDigit text"
      and n: "list_all (\<lambda>q. jsmatch q text = None) (map symbolRx [DOLLAR, EURO, RUPEE, POUND])"
  proof -
    from gen[OF d] obtain m where m: "jsmatch amountRx text = Some m" by blast
    from jsmatch_amount_Some[OF m] obtain c cs where g: "group1 m = Some (c # cs)" "isDigit c"
      by blast
    have dg: "\<exists>c' cs'. c # cs = c' # cs' \<and> isDigit c'" using g(2) by blast
    have "currencyPass (map symbolRx [DOLLAR, EURO, RUPEE, POUND] @ amountRx # []) text
        = Some (parseFloat (c # cs))"
      using currencyPass_at[OF n m g(1) dg] .
    then have "extractPrice text = Some (parseFloat (c # cs))"
      using pass by (simp add: patterns_eq)
    then show ?thesis using m g(1) by blast
  qed
  show ?thesis using pass iff gen val by blast
qed

theorem extractPrice_NotFound_iff_witness:
  "list_ex isDigit (js ''4821'')
   \<and> list_all (\<lambda>q. jsmatch q (js ''4821'') = None) (map symbolRx [DOLLAR, EURO, RUPEE, POUND])
   \<and> extractPrice (js ''4821'') = Some (Fin 4821)
   \<and> \<not> list_ex isDigit (js ''no digits here'') \<and> extractPrice (js ''no digits here'') = None"
proof -
  have d: "list_ex isDigit (js ''4821'')"
    by (simp add: js_def isDigit_def)
  have "\<forall>c\<in>set (js ''4821''). c \<notin> {DOLLAR, EURO, RUPEE, POUND}"
    by (simp add: js_def DOLLAR_def EURO_def RUPEE_def POUND_def)
  then have s: "list_all (\<lambda>q. jsmatch q (js ''4821'') = None)
                  (map symbolRx [DOLLAR, EURO, RUPEE, POUND])"
    by (auto intro!: jsmatch_symbol_absent)
  have n: "\<not> list_ex isDigit (js ''no digits here'')"
    by (simp add: js_def isDigit_def)
  have a: "amountAt (js ''4821'') = Some (js ''4821'', [])"
    by (simp add: amountAt_def js_def isDigit_def DOT_def)
  have p: "parseFloat (js ''4821'') = Fin 4821"
    by (simp add: parseFloat_eval)
  from extractPrice_NotFound_iff[of "js ''4821''"] d s obtain m cap where
    m: "jsmatch amountRx (js ''4821'') = Some m" "group1 m = Some cap"
       "extractPrice (js ''4821'') = Some (parseFloat cap)"
    by blast
  from jsmatch_amount_prefix[OF a] m(1,2) have "cap = js ''4821''" by auto
  then have "extractPrice (js ''4821'') = Some (Fin 4821)" using m(3) p by simp
  then show ?thesis
    using extractPrice_NotFound_iff[of "js ''no digits here''"] d s n by blast
qed

section \<open>The derived amounts of the basket\<close>

lemma round64_half: "round64 (1 / 2) = Fin (1 / 2)"
proof -
  have "round64 (1 / 2) = Fin (of_int 4503599627370496 * 2 powi (-1 - 52))"
    by (rule round64_cert) simp_all
  then show ?thesis by simp
qed

lemma round64_3_10: "round64 (3 / 10) = Fin (5404319552844595 / 18014398509481984)"
proof -
  have "round64 (3 / 10) = Fin (of_int 5404319552844595 * 2 powi (-2 - 52))"
    by (rule round64_cert) simp_all
  then show ?thesis by simp
qed

lemma round64_8_100: "round64 (2 / 25) = Fin (5764607523034235 / 72057594037927936)"
proof -
  have "round64 (2 / 25) = Fin (of_int 5764607523034235 * 2 powi (-4 - 52))"
    by (rule round64_cert) simp_all
  then show ?thesis by simp
qed

lemma round64_80_100: "round64 (4 / 5) = Fin (3602879701896397 / 4503599627370496)"
proof -
  have "round64 (4 / 5) = Fin (of_int 7205759403792794 * 2 powi (-1 - 52))"
    by (rule round64_cert) simp_all
  then show ?thesis by simp
qed

lemma round64_576_10000: "round64 (36 / 625) = Fin (4150517416584649 / 72057594037927936)"
proof -
  have "round64 (36 / 625) = Fin (of_int 8301034833169298 * 2 powi (-5 - 52))"
    by (rule round64_cert) simp_all
  then show ?thesis by simp
qed

lemma round64_7776_10000: "round64 (486 / 625) = Fin (7003998140486595 / 9007199254740992)"
proof -
  have "round64 (486 / 625) = Fin (of_int 7003998140486595 * 2 powi (-1 - 52))"
    by (rule round64_cert) simp_all
  then show ?thesis by simp
qed

lemma ex_sum: "round64 (14411518807585587 / 18014398509481984) = Fin (3602879701896397 / 4503599627370496)"
proof -
  have "round64 (14411518807585587 / 18014398509481984) = Fin (of_int 7205759403792794 * 2 powi (-1 - 52))"
    by (rule round64_cert) simp_all
  then show ?thesis by simp
qed

lemma ex_prod10: "round64 (18014398509481985 / 2251799813685248) = Fin (8)"
proof -
  have "round64 (18014398509481985 / 2251799813685248) = Fin (of_int 4503599627370496 * 2 powi (3 - 52))"
    by (rule round64_cert) simp_all
  then show ?thesis by simp
qed

lemma ex_diff: "round64 (51881467707308117 / 72057594037927936) = Fin (6485183463413515 / 9007199254740992)"
proof -
  have "round64 (51881467707308117 / 72057594037927936) = Fin (of_int 6485183463413515 * 2 powi (-1 - 52))"
    by (rule round64_cert) simp_all
  then show ?thesis by simp
qed

lemma ex_taxprod: "round64 (37384537381450764084743306686025 / 649037107316853453566312041152512) = Fin (8301034833169299 / 144115188075855872)"
proof -
  have "round64 (37384537381450764084743306686025 / 649037107316853453566312041152512) = Fin (of_int 8301034833169299 * 2 powi (-5 - 52))"
    by (rule round64_cert) simp_all
  then show ?thesis by simp
qed

lemma ex_totalsum: "round64 (112063970247785539 / 144115188075855872) = Fin (1750999535121649 / 2251799813685248)"
proof -
  have "round64 (112063970247785539 / 144115188075855872) = Fin (of_int 7003998140486596 * 2 powi (-1 - 52))"
    by (rule round64_cert) simp_all
  then show ?thesis by simp
qed

lemma ex_subtotal: "jadd (jadd (Fin 0) (Fin (1 / 2))) (Fin (5404319552844595 / 18014398509481984)) = Fin (3602879701896397 / 4503599627370496)"
  by (simp add: round64_half ex_sum)

lemma ex_discount: "jdiv (jmul (Fin (3602879701896397 / 4503599627370496)) (Fin 10)) (Fin 100) = Fin (5764607523034235 / 72057594037927936)"
  by (simp add: ex_prod10 round64_8_100)

lemma ex_tax:
  "jmul (jsub (Fin (3602879701896397 / 4503599627370496)) (Fin (5764607523034235 / 72057594037927936))) (Fin (5764607523034235 / 72057594037927936))
     = Fin (8301034833169299 / 144115188075855872)"
  by (simp add: jsub_def ex_diff ex_taxprod)

lemma ex_total:
  "jadd (jsub (Fin (3602879701896397 / 4503599627370496)) (Fin (5764607523034235 / 72057594037927936))) (Fin (8301034833169299 / 144115188075855872))
     = Fin (1750999535121649 / 2251799813685248)"
  by (simp add: jsub_def ex_diff ex_totalsum)

lemma round64_tax_literal: "round64 (11520000000000001 / 200000000000000000) = Fin (8301034833169299 / 144115188075855872)"
proof -
  have "round64 (11520000000000001 / 200000000000000000) = Fin (of_int 8301034833169299 * 2 powi (-5 - 52))"
    by (rule round64_cert) simp_all
  then show ?thesis by simp
qed

lemma round64_total_literal: "round64 (7776000000000001 / 10000000000000000) = Fin (1750999535121649 / 2251799813685248)"
proof -
  have "round64 (7776000000000001 / 10000000000000000) = Fin (of_int 7003998140486596 * 2 powi (-1 - 52))"
    by (rule round64_cert) simp_all
  then show ?thesis by simp
qed

lemma subtotal_snoc: "subtotal (items @ [item]) = jadd (subtotal items) (price item)"
  by (simp add: subtotal_def)

lemma example_amounts:
  assumes "map price items = [round64 (50 / 100), round64 (30 / 100)]"
  shows "subtotal items = Fin (3602879701896397 / 4503599627370496)"
    and "discountAmount items (Fin 10) = Fin (5764607523034235 / 72057594037927936)"
    and "taxAmount items (Fin 10) = Fin (8301034833169299 / 144115188075855872)"
    and "totalBill items (Fin 10) = Fin (1750999535121649 / 2251799813685248)"
proof -
  from assms obtain x y where xy: "items = [x, y]" "price x = Fin (1 / 2)"
    "price y = Fin (5404319552844595 / 18014398509481984)"
    by (auto simp: round64_half round64_3_10)
  show s: "subtotal items = Fin (3602879701896397 / 4503599627370496)"
    unfolding subtotal_def xy(1) using ex_subtotal by (simp only: foldl.simps xy)
  show d: "discountAmount items (Fin 10) = Fin (5764607523034235 / 72057594037927936)"
    unfolding discountAmount_def s by (rule ex_discount)
  show t: "taxAmount items (Fin 10) = Fin (8301034833169299 / 144115188075855872)"
    using ex_tax by (simp add: taxAmount_def s d TAX_RATE_def round64_8_100)
  show "totalBill items (Fin 10) = Fin (1750999535121649 / 2251799813685248)"
    unfolding totalBill_def s d t by (rule ex_total)
qed

text \<open>
  C7, as stated, fails: the amounts are binary64 numbers and each operation rounds. For
  item prices 0.50 and 0.30 with discount 10, taxAmount and total are not the numbers
  0.0576 and 0.7776.
\<close>

theorem basket_totals_exact_counterexample:
  "map price [SAMPLE_ITEMS ! 0, SAMPLE_ITEMS ! 1] = [round64 (50 / 100), round64 (30 / 100)]
   \<and> taxAmount [SAMPLE_ITEMS ! 0, SAMPLE_ITEMS ! 1] (Fin 10) \<noteq> round64 (576 / 10000)
   \<and> totalBill [SAMPLE_ITEMS ! 0, SAMPLE_ITEMS ! 1] (Fin 10) \<noteq> round64 (7776 / 10000)"
proof -
  have h: "map price [SAMPLE_ITEMS ! 0, SAMPLE_ITEMS ! 1]
             = [round64 (50 / 100), round64 (30 / 100)]"
    by (simp add: SAMPLE_ITEMS_def)
  show ?thesis
    using h example_amounts(3,4)[OF h]
    by (simp add: round64_576_10000 round64_7776_10000)
qed

text \<open>
  C7, amended. The derived amounts are computed by the formulas discountAmount =
  subtotal * discount / 100, taxAmount = (subtotal - discountAmount) * TAX_RATE and total
  = subtotal - discountAmount + taxAmount, where subtotal adds the item prices from left
  to right starting at 0, TAX_RATE is the constant 0.08, the only tax rate of the
  component, and every operation rounds to binary64. For item prices 0.50 and 0.30 with
  discount 10 the subtotal is the number 0.8, discountAmount is the number 0.08,
  taxAmount is 0.057600000000000005 and total is 0.7776000000000001; the last two differ
  from 0.0576 and 0.7776 by less than \<open>10^-16\<close>.
\<close>

theorem basket_totals:
  "discountAmount items discount = jdiv (jmul (subtotal items) discount) (Fin 100)
   \<and> taxAmount items discount
       = jmul (jsub (subtotal items) (discountAmount items discount)) TAX_RATE
   \<and> totalBill items discount
       = jadd (jsub (subtotal items) (discountAmount items discount)) (taxAmount items discount)
   \<and> TAX_RATE = round64 (8 / 100)
   \<and> subtotal [] = Fin 0
   \<and> subtotal (items @ [item]) = jadd (subtotal items) (price item)
   \<and> (map price items = [round64 (50 / 100), round64 (30 / 100)] \<longrightarrow>
        subtotal items = round64 (80 / 100)
        \<and> discountAmount items (Fin 10) = round64 (8 / 100)
        \<and> taxAmount items (Fin 10) = round64 (57600000000000005 / 10 ^ 18)
        \<and> totalBill items (Fin 10) = round64 (7776000000000001 / 10 ^ 16)
        \<and> taxAmount items (Fin 10) = Fin (8301034833169299 / 144115188075855872)
        \<and> totalBill items (Fin 10) = Fin (1750999535121649 / 2251799813685248))
   \<and> \<bar>8301034833169299 / 144115188075855872 - 576 / 10000\<bar> < (1 / 10 ^ 16 :: rat)
   \<and> \<bar>1750999535121649 / 2251799813685248 - 7776 / 10000\<bar> < (1 / 10 ^ 16 :: rat)"
proof -
  have d1: "discountAmount items discount = jdiv (jmul (subtotal items) discount) (Fin 100)"
    by (simp add: discountAmount_def)
  have d2: "taxAmount items discount
       = jmul (jsub (subtotal items) (discountAmount items discount)) TAX_RATE"
    by (simp add: taxAmount_def)
  have d3: "totalBill items discount
       = jadd (jsub (subtotal items) (discountAmount items discount)) (taxAmount items discount)"
    by (simp add: totalBill_def)
  have d4: "TAX_RATE = round64 (8 / 100)"
    by (simp add: TAX_RATE_def)
  have d5: "subtotal [] = Fin 0"
    by (simp add: subtotal_def)
  have d6: "subtotal (items @ [item]) = jadd (subtotal items) (price item)"
    by (rule subtotal_snoc)
  have ex: "subtotal items = round64 (80 / 100)
        \<and> discountAmount items (Fin 10) = round64 (8 / 100)
        \<and> taxAmount items (Fin 10) = round64 (57600000000000005 / 10 ^ 18)
        \<and> totalBill items (Fin 10) = round64 (7776000000000001 / 10 ^ 16)
        \<and> taxAmount items (Fin 10) = Fin (8301034833169299 / 144115188075855872)
        \<and> totalBill items (Fin 10) = Fin (1750999535121649 / 2251799813685248)"
    if h: "map price items = [round64 (50 / 100), round64 (30 / 100)]"
    using example_amounts[OF h]
    by (simp add: round64_80_100 round64_8_100 round64_tax_literal round64_total_literal)
  have n1: "\<bar>8301034833169299 / 144115188075855872 - 576 / 10000\<bar> < (1 / 10 ^ 16 :: rat)"
    by simp
  have n2: "\<bar>1750999535121649 / 2251799813685248 - 7776 / 10000\<bar> < (1 / 10 ^ 16 :: rat)"
    by simp
  show ?thesis using d1 d2 d3 d4 d5 d6 ex n1 n2 by blast
qed

theorem basket_totals_witness:
  "map price [SAMPLE_ITEMS ! 0, SAMPLE_ITEMS ! 1] = [round64 (50 / 100), round64 (30 / 100)]
   \<and> subtotal [SAMPLE_ITEMS ! 0, SAMPLE_ITEMS ! 1] = round64 (80 / 100)
   \<and> discountAmount [SAMPLE_ITEMS ! 0, SAMPLE_ITEMS ! 1] (Fin 10) = round64 (8 / 100)
   \<and> taxAmount [SAMPLE_ITEMS ! 0, SAMPLE_ITEMS ! 1] (Fin 10)
       = round64 (57600000000000005 / 10 ^ 18)
   \<and> totalBill [SAMPLE_ITEMS ! 0, SAMPLE_ITEMS ! 1] (Fin 10)
       = round64 (7776000000000001 / 10 ^ 16)"
proof -
  have h: "map price [SAMPLE_ITEMS ! 0, SAMPLE_ITEMS ! 1]
             = [round64 (50 / 100), round64 (30 / 100)]"
    by (simp add: SAMPLE_ITEMS_def)
  note t = basket_totals[of "[SAMPLE_ITEMS ! 0, SAMPLE_ITEMS ! 1]" "Fin 10" "SAMPLE_ITEMS ! 0"]
  from t h have a: "subtotal [SAMPLE_ITEMS ! 0, SAMPLE_ITEMS ! 1] = round64 (80 / 100)"
    by blast
  from t h have b: "discountAmount [SAMPLE_ITEMS ! 0, SAMPLE_ITEMS ! 1] (Fin 10)
      = round64 (8 / 100)"
    by blast
  from t h have c: "taxAmount [SAMPLE_ITEMS ! 0, SAMPLE_ITEMS ! 1] (Fin 10)
       = round64 (57600000000000005 / 10 ^ 18)"
    by blast
  from t h have d: "totalBill [SAMPLE_ITEMS ! 0, SAMPLE_ITEMS ! 1] (Fin 10)
       = round64 (7776000000000001 / 10 ^ 16)"
    by blast
  from h a b c d show ?thesis by blast
qed

section \<open>Properties of the frame preprocessor\<close>

lemma byte_sum_exact:
  assumes "x < 256" "y < 256" "z < 256"
  shows "jadd (jadd (Fin (of_nat x)) (Fin (of_nat y))) (Fin (of_nat z)) = Fin (of_nat (x + y + z))"
proof -
  have "x + y < 2 ^ 53" using assms by simp
  from round64_nat_exact[OF this] have 1: "jadd (Fin (of_nat x)) (Fin (of_nat y)) = Fin (of_nat (x + y))"
    by simp
  have "x + y + z < 2 ^ 53" using assms by simp
  from round64_nat_exact[OF this] have 2: "jadd (Fin (of_nat (x + y))) (Fin (of_nat z)) = Fin (of_nat (x + y + z))"
    by simp
  show ?thesis by (simp only: 1 2)
qed

lemma third_threshold:
  assumes s: "s < 768"
  shows "jgt (jdiv (Fin (of_nat s)) (Fin 3)) (Fin 128) \<longleftrightarrow> 128 < (of_nat s :: rat) / 3"
proof -
  consider "s = 0" | "s = 384" | "0 < s" "s < 384" | "384 < s" by linarith
  then show ?thesis
  proof cases
    case 1
    then show ?thesis by (simp add: signedZero_def jgt_def)
  next
    case 2
    have "round64 (of_nat 128) = Fin (of_nat 128)" by (rule round64_nat_exact) simp
    then have "round64 128 = Fin 128" by simp
    then show ?thesis using 2 by (simp add: jgt_def)
  next
    case 3
    let ?a = "of_nat s / 3 :: rat"
    have lo: "1 / 3 \<le> ?a" using 3 by simp
    have hi: "?a \<le> 128 - 1 / 3" using 3 by simp
    have a: "0 < ?a" using lo by linarith
    have "(2::rat) powi (- 1022) \<le> 1 / 3" by simp
    then have l: "2 powi (- 1022) \<le> ?a" using lo by linarith
    have "(128::rat) < 2 powi 1023" by simp
    then have h: "?a < 2 powi 1023" using hi by linarith
    from round64_near[OF l h] obtain r where r: "round64 ?a = Fin r"
      "\<bar>r - ?a\<bar> \<le> 2 powi (ilog2 ?a - 53)" by blast
    have "2 powi (ilog2 ?a) \<le> ?a" using ilog2_bounds[OF a] by simp
    also have "?a < 2 powi 7" using hi by simp
    finally have "ilog2 ?a < 7" by (simp only: pow2_less_iff)
    then have "ilog2 ?a - 53 \<le> - 46" by simp
    then have "(2::rat) powi (ilog2 ?a - 53) \<le> 2 powi (- 46)" by (simp only: pow2_le_iff)
    also have "\<dots> < 1 / 3" by simp
    finally have "\<bar>r - ?a\<bar> < 1 / 3" using r(2) by linarith
    then have "r < 128" using hi by linarith
    moreover have "\<not> 128 < ?a" using hi by linarith
    moreover have "jdiv (Fin (of_nat s)) (Fin 3) = Fin r" using 3 r(1) by simp
    ultimately show ?thesis by (simp add: jgt_def)
  next
    case 4
    let ?a = "of_nat s / 3 :: rat"
    have lo: "128 + 1 / 3 \<le> ?a" using 4 by simp
    have hi: "?a < 256" using s by simp
    have a: "0 < ?a" using lo by linarith
    have "(2::rat) powi (- 1022) \<le> 1 / 3" by simp
    then have l: "2 powi (- 1022) \<le> ?a" using lo by linarith
    have "(256::rat) < 2 powi 1023" by simp
    then have h: "?a < 2 powi 1023" using hi by linarith
    from round64_near[OF l h] obtain r where r: "round64 ?a = Fin r"
      "\<bar>r - ?a\<bar> \<le> 2 powi (ilog2 ?a - 53)" by blast
    have "2 powi (ilog2 ?a) \<le> ?a" using ilog2_bounds[OF a] by simp
    also have "?a < 2 powi 8" using hi by simp
    finally have "ilog2 ?a < 8" by (simp only: pow2_less_iff)
    then have "ilog2 ?a - 53 \<le> - 46" by simp
    then have "(2::rat) powi (ilog2 ?a - 53) \<le> 2 powi (- 46)" by (simp only: pow2_le_iff)
    also have "\<dots> < 1 / 3" by simp
    finally have "\<bar>r - ?a\<bar> < 1 / 3" using r(2) by linarith
    then have "128 < r" using lo by linarith
    moreover have "128 < ?a" using lo by linarith
    moreover have "jdiv (Fin (of_nat s)) (Fin 3) = Fin r" using 4 r(1) by simp
    ultimately show ?thesis by (simp add: jgt_def)
  qed
qed

lemma pixelValue_bytes:
  fixes r g b :: "8 word"
  shows "pixelValue (Fin (of_nat (unat r))) (Fin (of_nat (unat g))) (Fin (of_nat (unat b)))
     = (if 128 < (of_nat (unat r) + of_nat (unat g) + of_nat (unat b) :: rat) / 3 then 255 else 0)"
proof -
  have b: "unat r < 256" "unat g < 256" "unat b < 256"
    using unsigned_less[of r] unsigned_less[of g] unsigned_less[of b] by simp_all
  then have s: "unat r + unat g + unat b < 768" by linarith
  show ?thesis
    unfolding pixelValue_def Let_def byte_sum_exact[OF b] third_threshold[OF s]
    by simp
qed

lemma jadd_NaN: "jadd x NaN = NaN"
  by (cases x) simp_all

lemma jlt_NaN: "jlt x NaN = False"
  by (cases x) simp_all

lemma pixelValue_NaN: "pixelValue r g NaN = 0"
  by (simp add: pixelValue_def jgt_def jadd_NaN jlt_NaN)

lemma pixelValue_range: "pixelValue r g b = 0 \<or> pixelValue r g b = 255"
  by (simp add: pixelValue_def Let_def)

lemma pixelValue_fix:
  assumes "v = 0 \<or> v = 255"
  shows "pixelValue (Fin (of_nat (unat v))) (Fin (of_nat (unat v))) (Fin (of_nat (unat v))) = v"
  using assms pixelValue_bytes[of v v v] by auto

lemma enhanceContrast_end: "enhanceContrast (length data) data = data"
  by (subst enhanceContrast.simps) simp

lemma enhanceContrast_pixels:
  "enhanceContrast (length pre) (pre @ xs) = pre @ binarizePixels xs"
proof (induction xs arbitrary: pre rule: binarizePixels.induct)
  case (1 r g b a rest)
  let ?v = "pixelValue (Fin (of_nat (unat r))) (Fin (of_nat (unat g))) (Fin (of_nat (unat b)))"
  let ?xs = "r # g # b # a # rest"
  have ih: "enhanceContrast (length p) (p @ rest) = p @ binarizePixels rest" for p
    using "1.IH" by blast
  have c: "channel (pre @ ?xs) (length pre) = Fin (of_nat (unat r))"
    "channel (pre @ ?xs) (length pre + 1) = Fin (of_nat (unat g))"
    "channel (pre @ ?xs) (length pre + 2) = Fin (of_nat (unat b))"
    by (simp_all add: channel_def nth_append)
  have s: "store (store (store (pre @ ?xs) (length pre + 2) ?v) (length pre + 1) ?v) (length pre) ?v
      = (pre @ [?v, ?v, ?v, a]) @ rest"
    by (simp add: store_def list_update_append)
  have "enhanceContrast (length pre) (pre @ ?xs)
      = enhanceContrast (length pre + 4) ((pre @ [?v, ?v, ?v, a]) @ rest)"
    by (subst enhanceContrast.simps) (simp only: c s Let_def, simp)
  also have "\<dots> = (pre @ [?v, ?v, ?v, a]) @ binarizePixels rest"
  proof -
    have "length pre + 4 = length (pre @ [?v, ?v, ?v, a])" by simp
    then show ?thesis by (simp only: ih)
  qed
  finally show ?case by (simp add: Let_def)
next
  case (2 r g b)
  let ?v = "pixelValue (Fin (of_nat (unat r))) (Fin (of_nat (unat g))) (Fin (of_nat (unat b)))"
  let ?xs = "[r, g, b]"
  have c: "channel (pre @ ?xs) (length pre) = Fin (of_nat (unat r))"
    "channel (pre @ ?xs) (length pre + 1) = Fin (of_nat (unat g))"
    "channel (pre @ ?xs) (length pre + 2) = Fin (of_nat (unat b))"
    by (simp_all add: channel_def nth_append)
  have s: "store (store (store (pre @ ?xs) (length pre + 2) ?v) (length pre + 1) ?v) (length pre) ?v
      = pre @ [?v, ?v, ?v]"
    by (simp add: store_def list_update_append)
  have "enhanceContrast (length pre) (pre @ ?xs)
      = enhanceContrast (length pre + 4) (pre @ [?v, ?v, ?v])"
    by (subst enhanceContrast.simps) (simp only: c s Let_def, simp)
  also have "\<dots> = pre @ [?v, ?v, ?v]"
    by (subst enhanceContrast.simps) simp
  finally show ?case by (simp add: Let_def)
next
  case (3 r g)
  let ?xs = "[r, g]"
  have c: "channel (pre @ ?xs) (length pre + 2) = NaN"
    by (simp add: channel_def)
  have s: "store (store (store (pre @ ?xs) (length pre + 2) 0) (length pre + 1) 0) (length pre) 0
      = pre @ [0, 0]"
    by (simp add: store_def list_update_append)
  have "enhanceContrast (length pre) (pre @ ?xs) = enhanceContrast (length pre + 4) (pre @ [0, 0])"
    by (subst enhanceContrast.simps) (simp only: c s Let_def pixelValue_NaN, simp)
  also have "\<dots> = pre @ [0, 0]"
    by (subst enhanceContrast.simps) simp
  finally show ?case by simp
next
  case (4 r)
  let ?xs = "[r]"
  have c: "channel (pre @ ?xs) (length pre + 2) = NaN"
    by (simp add: channel_def)
  have s: "store (store (store (pre @ ?xs) (length pre + 2) 0) (length pre + 1) 0) (length pre) 0
      = pre @ [0]"
    by (simp add: store_def list_update_append)
  have "enhanceContrast (length pre) (pre @ ?xs) = enhanceContrast (length pre + 4) (pre @ [0])"
    by (subst enhanceContrast.simps) (simp only: c s Let_def pixelValue_NaN, simp)
  also have "\<dots> = pre @ [0]"
    by (subst enhanceContrast.simps) simp
  finally show ?case by simp
next
  case 5
  show ?case using enhanceContrast_end[of pre] by simp
qed

lemma binarize_pixels: "binarize data = binarizePixels data"
  using enhanceContrast_pixels[of "[]" data] by (simp add: binarize_def)

lemma binarizePixels_idem: "binarizePixels (binarizePixels xs) = binarizePixels xs"
proof (induction xs rule: binarizePixels.induct)
  case (1 r g b a rest)
  then show ?case
    using pixelValue_fix[OF pixelValue_range] by (simp add: Let_def)
next
  case (2 r g b)
  then show ?case
    using pixelValue_fix[OF pixelValue_range] by (simp add: Let_def)
next
  case (3 r g)
  show ?case by simp
next
  case (4 r)
  show ?case by simp
next
  case 5
  show ?case by simp
qed

text \<open>
  C8. Binarizing twice gives the same pixel data as binarizing once. Each pixel gets its
  three colour channels set to 255 when the average of the three exceeds 128 and to 0
  otherwise; the fourth channel is left as it is.
\<close>

theorem binarize_idempotent:
  "binarize (binarize data) = binarize data
   \<and> binarize (r # g # b # a # rest)
       = (if 128 < (of_nat (unat r) + of_nat (unat g) + of_nat (unat b) :: rat) / 3
          then 255 # 255 # 255 # a # binarize rest
          else 0 # 0 # 0 # a # binarize rest)"
proof -
  let ?c = "128 < (of_nat (unat r) + of_nat (unat g) + of_nat (unat b) :: rat) / 3"
  let ?v = "pixelValue (Fin (of_nat (unat r))) (Fin (of_nat (unat g))) (Fin (of_nat (unat b)))"
  have 1: "binarize (binarize data) = binarize data"
    by (simp only: binarize_pixels binarizePixels_idem)
  have 2: "binarize (r # g # b # a # rest) = ?v # ?v # ?v # a # binarize rest"
    by (simp only: binarize_pixels binarizePixels.simps Let_def)
  have 3: "binarize (r # g # b # a # rest)
       = (if ?c then 255 # 255 # 255 # a # binarize rest else 0 # 0 # 0 # a # binarize rest)"
  proof (cases ?c)
    case True
    then have "?v = 255" by (simp only: pixelValue_bytes if_True)
    then show ?thesis using True 2 by (simp only: if_True)
  next
    case False
    then have "?v = 0" by (simp only: pixelValue_bytes if_False)
    then show ?thesis using False 2 by (simp only: if_False)
  qed
  from 1 3 show ?thesis by (rule conjI)
qed

section \<open>Properties of the handlers\<close>

lemma handleManualPriceSubmit_accept:
  assumes "\<not> isNaN (parseFloat (manualPrice st))" "jgt (parseFloat (manualPrice st)) (Fin 0)"
  shows "handleManualPriceSubmit now st =
           st\<lparr>basket := basket st @ [\<lparr>item_id = numberToString now, item_name = js ''Manual Item'',
                                        price = parseFloat (manualPrice st)\<rparr>],
              manualPrice := [], showManualInput := False, scanError := None\<rparr>"
  using assms by (simp add: handleManualPriceSubmit_def addItemToBasket_def Let_def)

lemma handleManualPriceSubmit_reject:
  assumes "\<not> (\<not> isNaN (parseFloat (manualPrice st)) \<and> jgt (parseFloat (manualPrice st)) (Fin 0))"
  shows "handleManualPriceSubmit now st = st\<lparr>scanError := Some (js ''Please enter a valid price'')\<rparr>"
  using assms by (auto simp add: handleManualPriceSubmit_def Let_def)

lemma parseFloat_letters: "parseFloat (js ''abc'') = NaN"
  by (simp add: parseFloat_def unsignedDecimal_def exponentPart_def scale10_def digitsVal_def
        digitVal_def js_def isDigit_def isSpace_def DOT_def MINUS_SIGN_def PLUS_SIGN_def Let_def)

text \<open>
  C9. Submitting the manual form appends exactly one item to the basket if and only if
  \<open>parseFloat\<close> of the entered text is a number greater than 0; the item carries that
  number as its price. Otherwise the basket is unchanged, the error message asks for a
  valid price, and the form with the entered text stays as it is.
\<close>

theorem manual_price_submit:
  "((\<exists>item. basket (handleManualPriceSubmit now st) = basket st @ [item])
      \<longleftrightarrow> \<not> isNaN (parseFloat (manualPrice st)) \<and> jgt (parseFloat (manualPrice st)) (Fin 0))
   \<and> (\<not> isNaN (parseFloat (manualPrice st)) \<and> jgt (parseFloat (manualPrice st)) (Fin 0) \<longrightarrow>
        basket (handleManualPriceSubmit now st)
          = basket st @ [\<lparr>item_id = numberToString now, item_name = js ''Manual Item'',
                           price = parseFloat (manualPrice st)\<rparr>]
        \<and> scanError (handleManualPriceSubmit now st) = None)
   \<and> (\<not> (\<not> isNaN (parseFloat (manualPrice st)) \<and> jgt (parseFloat (manualPrice st)) (Fin 0)) \<longrightarrow>
        basket (handleManualPriceSubmit now st) = basket st
        \<and> scanError (handleManualPriceSubmit now st) = Some (js ''Please enter a valid price'')
        \<and> showManualInput (handleManualPriceSubmit now st) = showManualInput st
        \<and> manualPrice (handleManualPriceSubmit now st) = manualPrice st)"
proof (cases "\<not> isNaN (parseFloat (manualPrice st)) \<and> jgt (parseFloat (manualPrice st)) (Fin 0)")
  case True
  then show ?thesis
    using handleManualPriceSubmit_accept[of st now] by simp
next
  case False
  then show ?thesis
    using handleManualPriceSubmit_reject[OF False, of now] by simp
qed

theorem manual_price_submit_witness:
  "basket (handleManualPriceSubmit 1700000000000 (initialState\<lparr>manualPrice := js ''2.50''\<rparr>))
     = [\<lparr>item_id = numberToString 1700000000000, item_name = js ''Manual Item'', price = Fin (250 / 100)\<rparr>]
   \<and> basket (handleManualPriceSubmit 1700000000000 (initialState\<lparr>manualPrice := js ''0''\<rparr>)) = []
   \<and> scanError (handleManualPriceSubmit 1700000000000 (initialState\<lparr>manualPrice := js ''0''\<rparr>))
       = Some (js ''Please enter a valid price'')
   \<and> basket (handleManualPriceSubmit 1700000000000 (initialState\<lparr>manualPrice := js ''abc''\<rparr>)) = []"
proof -
  let ?ok = "initialState\<lparr>manualPrice := js ''2.50''\<rparr>"
  let ?zero = "initialState\<lparr>manualPrice := js ''0''\<rparr>"
  let ?bad = "initialState\<lparr>manualPrice := js ''abc''\<rparr>"
  have a: "\<not> isNaN (parseFloat (manualPrice ?ok)) \<and> jgt (parseFloat (manualPrice ?ok)) (Fin 0)"
    by (simp add: parseFloat_eval jgt_def)
  have z: "\<not> (\<not> isNaN (parseFloat (manualPrice ?zero)) \<and> jgt (parseFloat (manualPrice ?zero)) (Fin 0))"
    by (simp add: parseFloat_eval jgt_def)
  have b: "\<not> (\<not> isNaN (parseFloat (manualPrice ?bad)) \<and> jgt (parseFloat (manualPrice ?bad)) (Fin 0))"
    by (simp add: parseFloat_letters jgt_def)
  have e: "basket ?ok = []" "basket ?zero = []" "basket ?bad = []"
    "parseFloat (manualPrice ?ok) = Fin (250 / 100)"
    by (simp_all add: initialState_def parseFloat_eval)
  from manual_price_submit[of 1700000000000 ?ok] a
  have r1: "basket (handleManualPriceSubmit 1700000000000 ?ok)
      = basket ?ok @ [\<lparr>item_id = numberToString 1700000000000, item_name = js ''Manual Item'',
                        price = parseFloat (manualPrice ?ok)\<rparr>]"
    by blast
  from manual_price_submit[of 1700000000000 ?zero] z
  have r2: "basket (handleManualPriceSubmit 1700000000000 ?zero) = basket ?zero
      \<and> scanError (handleManualPriceSubmit 1700000000000 ?zero)
          = Some (js ''Please enter a valid price'')"
    by blast
  from manual_price_submit[of 1700000000000 ?bad] b
  have r3: "basket (handleManualPriceSubmit 1700000000000 ?bad) = basket ?bad"
    by blast
  show ?thesis using r1 r2 r3 e by simp
qed

subsection \<open>The ids of the items\<close>

lemma digit_of_nat:
  assumes "k < 10"
  shows "digitVal (of_nat (48 + k)) = k"
proof -
  have "unat (of_nat (48 + k) :: jschar) = (48 + k) mod 2 ^ LENGTH(16)"
    by (rule unat_of_nat)
  also have "\<dots> = 48 + k" using assms by simp
  finally show ?thesis unfolding digitVal_def by (simp only: add_diff_cancel_left')
qed

lemma digitsVal_snoc: "digitsVal (ds @ [c]) = 10 * digitsVal ds + digitVal c"
  by (simp add: digitsVal_def)

lemma digitsVal_numberToString: "digitsVal (numberToString n) = n"
proof (induction n rule: numberToString.induct)
  case (1 n)
  show ?case
  proof (cases "n < 10")
    case True
    then have "numberToString n = [] @ [of_nat (48 + n)]"
      by (subst numberToString.simps) (simp only: if_True append_Nil)
    then have "digitsVal (numberToString n) = 10 * digitsVal [] + n"
      using digit_of_nat[OF True] by (simp only: digitsVal_snoc)
    then show ?thesis by (simp add: digitsVal_def)
  next
    case False
    have m: "n mod 10 < 10" by simp
    have "numberToString n = numberToString (n div 10) @ [of_nat (48 + n mod 10)]"
      using False by (subst numberToString.simps) (simp only: if_False)
    then have "digitsVal (numberToString n)
        = 10 * digitsVal (numberToString (n div 10)) + n mod 10"
      using digit_of_nat[OF m] by (simp only: digitsVal_snoc)
    then show ?thesis using 1 False by simp
  qed
qed

lemma numberToString_inj: "numberToString m = numberToString n \<Longrightarrow> m = n"
  using digitsVal_numberToString by metis

lemma numberToString_digit: "n < 10 \<Longrightarrow> numberToString n = [of_nat (48 + n)]"
  by (subst numberToString.simps) simp

lemma sample_id_cases:
  assumes "it \<in> set SAMPLE_ITEMS"
  shows "\<exists>k\<in>{1..6}. item_id it = numberToString k"
proof -
  have n: "js ''1'' = numberToString 1" "js ''2'' = numberToString 2" "js ''3'' = numberToString 3"
    "js ''4'' = numberToString 4" "js ''5'' = numberToString 5" "js ''6'' = numberToString 6"
    by (simp_all add: numberToString_digit js_def)
  from assms consider "item_id it = js ''1''" | "item_id it = js ''2''" | "item_id it = js ''3''"
    | "item_id it = js ''4''" | "item_id it = js ''5''" | "item_id it = js ''6''"
    by (auto simp: SAMPLE_ITEMS_def)
  then show ?thesis
    by cases (simp_all only: n, auto)
qed

lemma sample_inj: "inj_on item_id (set SAMPLE_ITEMS)"
  by (simp add: SAMPLE_ITEMS_def js_def)

lemma made_not_sample:
  assumes "t \<notin> {1..6}" "item_id it = numberToString t"
  shows "it \<notin> set SAMPLE_ITEMS"
  using assms sample_id_cases[of it] numberToString_inj by metis

lemma goodBasket_Nil: "goodBasket U []"
  by (simp add: goodBasket_def)

lemma goodBasket_mono: "goodBasket U b \<Longrightarrow> U \<subseteq> V \<Longrightarrow> goodBasket V b"
  unfolding goodBasket_def by blast

lemma goodBasket_sample:
  "goodBasket U b \<Longrightarrow> it \<in> set SAMPLE_ITEMS \<Longrightarrow> goodBasket U (b @ [it])"
  by (auto simp: goodBasket_def)

lemma goodBasket_made:
  assumes g: "goodBasket U b" and t: "t \<notin> U" "t \<notin> {1..6}"
      and i: "item_id it = numberToString t"
  shows "goodBasket (insert t U) (b @ [it])"
proof -
  have n: "it \<notin> set SAMPLE_ITEMS" using made_not_sample[OF t(2) i] .
  have f: "numberToString t \<notin> numberToString ` U"
    using t(1) numberToString_inj by blast
  have "item_id it \<notin> item_id ` {x \<in> set b. x \<notin> set SAMPLE_ITEMS}"
    using g f i by (auto simp: goodBasket_def)
  then show ?thesis
    using g n i by (auto simp: goodBasket_def)
qed

lemma distinct_filter_remove:
  assumes "distinct (map f (filter P xs))"
  shows "distinct (map f (filter P (take k xs @ drop (Suc k) xs)))"
proof (cases "k < length xs")
  case True
  have "xs = take k xs @ xs ! k # drop (Suc k) xs"
    using True by (rule id_take_nth_drop)
  then have "distinct (map f (filter P (take k xs @ xs ! k # drop (Suc k) xs)))"
    using assms by simp
  then show ?thesis by (auto split: if_splits)
next
  case False
  then show ?thesis using assms by simp
qed

lemma set_remove_subset: "set (take k xs @ drop (Suc k) xs) \<subseteq> set xs"
  using set_take_subset[of k xs] set_drop_subset[of "Suc k" xs] by auto

lemma goodBasket_remove:
  assumes "goodBasket U b"
  shows "goodBasket U (take k b @ drop (Suc k) b)"
  unfolding goodBasket_def
proof
  show "distinct (map item_id (filter (\<lambda>it. it \<notin> set SAMPLE_ITEMS) (take k b @ drop (Suc k) b)))"
    using assms by (intro distinct_filter_remove) (simp add: goodBasket_def)
  show "\<forall>it\<in>set (take k b @ drop (Suc k) b).
          it \<notin> set SAMPLE_ITEMS \<longrightarrow> item_id it \<in> numberToString ` U"
    using assms set_remove_subset[of k b] by (auto simp: goodBasket_def)
qed

lemma remove_by_index:
  "map fst (filter (\<lambda>(_, i). i \<noteq> k) (zip xs [0 ..< length xs])) = take k xs @ drop (Suc k) xs"
proof (induction xs rule: rev_induct)
  case Nil
  show ?case by simp
next
  case (snoc x xs)
  have z: "zip (xs @ [x]) [0 ..< length (xs @ [x])] = zip xs [0 ..< length xs] @ [(x, length xs)]"
    by simp
  show ?case
  proof (cases "k < length xs")
    case True
    then show ?thesis unfolding z using snoc by (simp add: Suc_diff_le)
  next
    case False
    then show ?thesis unfolding z using snoc by (cases "k = length xs") simp_all
  qed
qed

lemma basket_removeItem:
  "basket (removeItemFromBasket k st) = take k (basket st) @ drop (Suc k) (basket st)"
  by (simp add: removeItemFromBasket_def remove_by_index)

lemma sessionInv_mono: "sessionInv U s \<Longrightarrow> U \<subseteq> V \<Longrightarrow> sessionInv V s"
  using goodBasket_mono by (auto simp: sessionInv_def)

lemma sessionInv_pending_nth:
  "sessionInv U s \<Longrightarrow> k < length (pending s) \<Longrightarrow> goodBasket U (closureOf (pending s ! k))"
  by (simp add: sessionInv_def)

lemma sessionInv_finish:
  assumes "sessionInv U s" "goodBasket U (basket st')"
  shows "sessionInv U \<lparr>ui = st', pending = dropAt k (pending s)\<rparr>"
  using assms set_remove_subset[of k "pending s"] by (auto simp: sessionInv_def dropAt_def)

lemma sessionInv_start:
  assumes "sessionInv U s" "basket st' = basket (ui s)" "closureOf p = basket (ui s)"
  shows "sessionInv U \<lparr>ui = st', pending = pending s @ [p]\<rparr>"
  using assms by (auto simp: sessionInv_def)

lemma sessionInv_ui:
  assumes "sessionInv U s" "goodBasket U (basket st')"
  shows "sessionInv U (s\<lparr>ui := st'\<rparr>)"
  using assms by (auto simp: sessionInv_def)

lemma sessionInv_step:
  assumes inv: "sessionInv U s"
      and fresh: "set (clockReadings [a]) \<inter> U = {}"
      and late: "set (clockReadings [a]) \<inter> {1..6} = {}"
  shows "sessionInv (U \<union> set (clockReadings [a])) (step s a)"
proof (cases a)
  case CaptureImage
  then show ?thesis
    using inv by (simp add: sessionInv_start processImageStart_def)
next
  case (FrameRecognized k now recognized)
  have t: "now \<notin> U" "now \<notin> {1..6}" using fresh late FrameRecognized by simp_all
  have inv': "sessionInv (insert now U) s" using inv by (rule sessionInv_mono) auto
  show ?thesis
  proof (cases "k < length (pending s)")
    case False
    then show ?thesis using inv' FrameRecognized by simp
  next
    case True
    show ?thesis
    proof (cases "pending s ! k")
      case (PendingBarcode b)
      then show ?thesis using inv' True FrameRecognized by simp
    next
      case (PendingFrame b)
      have gb: "goodBasket U b" using sessionInv_pending_nth[OF inv True] PendingFrame by simp
      have gu: "goodBasket (insert now U) (basket (ui s))" using inv' by (simp add: sessionInv_def)
      have "goodBasket (insert now U) (basket (processImage now recognized b (ui s)))"
        using goodBasket_made[OF gb t] gu
        by (simp add: processImage_def addItemToBasket_def split: option.splits)
      then show ?thesis
        using sessionInv_finish[OF inv'] True PendingFrame FrameRecognized by simp
    qed
  qed
next
  case StartBarcodeScanner
  then show ?thesis
    using inv by (simp add: sessionInv_start startBarcodeScanner_def)
next
  case (BarcodeDecoded k now code)
  have t: "now \<notin> U" "now \<notin> {1..6}" using fresh late BarcodeDecoded by simp_all
  have inv': "sessionInv (insert now U) s" using inv by (rule sessionInv_mono) auto
  show ?thesis
  proof (cases "k < length (pending s)")
    case False
    then show ?thesis using inv' BarcodeDecoded by simp
  next
    case True
    show ?thesis
    proof (cases "pending s ! k")
      case (PendingFrame b)
      then show ?thesis using inv' True BarcodeDecoded by simp
    next
      case (PendingBarcode b)
      have gb: "goodBasket U b" using sessionInv_pending_nth[OF inv True] PendingBarcode by simp
      have "goodBasket (insert now U) (basket (barcodeDecoded now code b (ui s)))"
        using goodBasket_made[OF gb t]
        by (simp add: barcodeDecoded_def addItemToBasket_def)
      then show ?thesis
        using sessionInv_finish[OF inv'] True PendingBarcode BarcodeDecoded by simp
    qed
  qed
next
  case (BarcodeFailed k)
  have "goodBasket U (basket (barcodeFailed (ui s)))"
    using inv by (simp add: sessionInv_def barcodeFailed_def)
  then show ?thesis
    using sessionInv_finish[OF inv] inv BarcodeFailed by (simp split: pending.splits)
next
  case (BarcodeInitFailed k)
  have "goodBasket U (basket (barcodeInitFailed (ui s)))"
    using inv by (simp add: sessionInv_def barcodeInitFailed_def)
  then show ?thesis
    using sessionInv_finish[OF inv] inv BarcodeInitFailed by (simp split: pending.splits)
next
  case (TypeManualPrice v)
  have "goodBasket U (basket ((ui s)\<lparr>manualPrice := v\<rparr>))"
    using inv by (simp add: sessionInv_def)
  then show ?thesis
    using sessionInv_ui[OF inv] TypeManualPrice by simp
next
  case (SubmitManualPrice now)
  have t: "now \<notin> U" "now \<notin> {1..6}" using fresh late SubmitManualPrice by simp_all
  have inv': "sessionInv (insert now U) s" using inv by (rule sessionInv_mono) auto
  have gb: "goodBasket U (basket (ui s))" using inv by (simp add: sessionInv_def)
  have gu: "goodBasket (insert now U) (basket (ui s))" using inv' by (simp add: sessionInv_def)
  have "goodBasket (insert now U) (basket (handleManualPriceSubmit now (ui s)))"
    using goodBasket_made[OF gb t] gu
    by (simp add: handleManualPriceSubmit_def addItemToBasket_def Let_def)
  then show ?thesis
    using sessionInv_ui[OF inv'] SubmitManualPrice by simp
next
  case (PickSample k)
  have gb: "goodBasket U (basket (ui s))" using inv by (simp add: sessionInv_def)
  show ?thesis
  proof (cases "k < length SAMPLE_ITEMS")
    case True
    then have "goodBasket U (basket (addItemToBasket (basket (ui s)) (SAMPLE_ITEMS ! k) (ui s)))"
      using goodBasket_sample[OF gb, of "SAMPLE_ITEMS ! k"] by (simp add: addItemToBasket_def)
    then show ?thesis using sessionInv_ui[OF inv] True PickSample by simp
  next
    case False
    then show ?thesis using inv PickSample by simp
  qed
next
  case (RemoveItem k)
  have gb: "goodBasket U (basket (ui s))" using inv by (simp add: sessionInv_def)
  have "goodBasket U (basket (removeItemFromBasket k (ui s)))"
    using goodBasket_remove[OF gb] by (simp add: basket_removeItem)
  then show ?thesis using sessionInv_ui[OF inv] RemoveItem by simp
qed

lemma clockReadings_append: "clockReadings (xs @ ys) = clockReadings xs @ clockReadings ys"
  by (induction xs rule: clockReadings.induct) simp_all

lemma run_snoc: "run (acts @ [a]) = step (run acts) a"
  by (simp add: run_def)

lemma sessionInv_run:
  assumes "distinct (clockReadings acts)" "set (clockReadings acts) \<inter> {1..6} = {}"
  shows "sessionInv (set (clockReadings acts)) (run acts)"
  using assms
proof (induction acts rule: rev_induct)
  case Nil
  show ?case
    by (simp add: run_def sessionInv_def initialSession_def initialState_def goodBasket_Nil)
next
  case (snoc a acts)
  have c: "clockReadings (acts @ [a]) = clockReadings acts @ clockReadings [a]"
    by (rule clockReadings_append)
  have d: "distinct (clockReadings acts)" "set (clockReadings [a]) \<inter> set (clockReadings acts) = {}"
    using snoc.prems(1) unfolding c by auto
  have l: "set (clockReadings acts) \<inter> {1..6} = {}" "set (clockReadings [a]) \<inter> {1..6} = {}"
    using snoc.prems(2) unfolding c by auto
  have "sessionInv (set (clockReadings acts) \<union> set (clockReadings [a])) (step (run acts) a)"
    using snoc.IH[OF d(1) l(1)] d(2) l(2) by (rule sessionInv_step)
  then show ?case unfolding c run_snoc by simp
qed

lemma distinct_map_partition:
  "distinct (map f xs) \<longleftrightarrow>
     distinct (map f (filter P xs)) \<and> distinct (map f (filter (\<lambda>x. \<not> P x) xs))
     \<and> (\<forall>x\<in>set xs. \<forall>y\<in>set xs. P x \<longrightarrow> \<not> P y \<longrightarrow> f x \<noteq> f y)"
proof (induction xs)
  case Nil
  show ?case by simp
next
  case (Cons a xs)
  show ?case
  proof (cases "P a")
    case True
    have "f a \<notin> f ` set xs \<longleftrightarrow>
        f a \<notin> f ` set (filter P xs) \<and> (\<forall>y\<in>set xs. \<not> P y \<longrightarrow> f a \<noteq> f y)"
      by auto
    then show ?thesis using True Cons by (simp del: set_filter) blast
  next
    case False
    have "f a \<notin> f ` set xs \<longleftrightarrow>
        f a \<notin> f ` set (filter (\<lambda>x. \<not> P x) xs) \<and> (\<forall>x\<in>set xs. P x \<longrightarrow> f x \<noteq> f a)"
      by (simp add: image_iff) metis
    then show ?thesis using False Cons by (simp del: set_filter) blast
  qed
qed

lemma goodBasket_distinct:
  assumes g: "goodBasket U b" and l: "U \<inter> {1..6} = {}"
  shows "distinct (map item_id b) \<longleftrightarrow> distinct (filter (\<lambda>it. it \<in> set SAMPLE_ITEMS) b)"
proof -
  let ?S = "\<lambda>it. it \<in> set SAMPLE_ITEMS"
  have "inj_on item_id (set (filter ?S b))"
    using sample_inj by (rule inj_on_subset) auto
  then have 1: "distinct (map item_id (filter ?S b)) \<longleftrightarrow> distinct (filter ?S b)"
    by (simp add: distinct_map)
  have 2: "distinct (map item_id (filter (\<lambda>x. \<not> ?S x) b))"
    using g by (simp add: goodBasket_def)
  have 3: "\<forall>x\<in>set b. \<forall>y\<in>set b. ?S x \<longrightarrow> \<not> ?S y \<longrightarrow> item_id x \<noteq> item_id y"
  proof (intro ballI impI notI)
    fix x y
    assume xy: "x \<in> set b" "y \<in> set b" "?S x" "\<not> ?S y" "item_id x = item_id y"
    from sample_id_cases[OF xy(3)] obtain k where k: "k \<in> {1..6}" "item_id x = numberToString k"
      by blast
    from g xy(2,4) obtain t where t: "t \<in> U" "item_id y = numberToString t"
      by (auto simp: goodBasket_def)
    have "k = t" using k(2) t(2) xy(5) numberToString_inj by simp
    then show False using k(1) t(1) l by auto
  qed
  show ?thesis
    unfolding distinct_map_partition[of item_id b ?S] using 1 2 3 by simp
qed

text \<open>
  An item added while a scan is pending is lost when the scan finishes: the continuation
  appends to the basket of the render in which the scan was started.
\<close>

lemma pending_scan_overwrites:
  "basket (ui (run [StartBarcodeScanner, PickSample 0, BarcodeDecoded 0 now code]))
     = [\<lparr>item_id = numberToString now, item_name = js ''Item ('' @ code @ js '')'',
         price = round64 (999 / 100)\<rparr>]"
  by (simp add: run_def initialSession_def initialState_def startBarcodeScanner_def
      addItemToBasket_def barcodeDecoded_def SAMPLE_ITEMS_def dropAt_def)

text \<open>
  The two conditions on the clock in the theorem below are needed: two items made at the
  same clock reading have the same id, and an item made at the clock reading 1 has the id
  of the first sample item.
\<close>

lemma same_reading_same_id:
  "map item_id (basket (ui (run [StartBarcodeScanner, BarcodeDecoded 0 now code,
                                  StartBarcodeScanner, BarcodeDecoded 0 now code])))
     = [numberToString now, numberToString now]"
  by (simp add: run_def initialSession_def initialState_def startBarcodeScanner_def
      addItemToBasket_def barcodeDecoded_def dropAt_def)

lemma reading_one_sample_id:
  "map item_id (basket (ui (run [PickSample 0, StartBarcodeScanner, BarcodeDecoded 0 1 code])))
     = [js ''1'', js ''1'']"
  by (simp add: run_def initialSession_def initialState_def startBarcodeScanner_def
      addItemToBasket_def barcodeDecoded_def dropAt_def SAMPLE_ITEMS_def numberToString_digit
      js_def)

text \<open>
  C10, as stated, fails: a sample item is added as it is, with its fixed id, so choosing
  the first sample item twice gives a basket with two items of id \<open>1\<close>.
\<close>

theorem basket_ids_distinct_counterexample:
  "basket (ui (run [PickSample 0, PickSample 0])) = [SAMPLE_ITEMS ! 0, SAMPLE_ITEMS ! 0]
   \<and> \<not> distinct (map item_id (basket (ui (run [PickSample 0, PickSample 0]))))"
  by (simp add: run_def initialSession_def initialState_def addItemToBasket_def SAMPLE_ITEMS_def)

text \<open>
  C10, amended. Take any sequence of actions: captures, recognitions and decodings that
  finish in any order, manual submissions, sample items chosen, items removed. If the clock
  readings taken when items are made are pairwise distinct and none of them is one of 1 to
  6, the numbers whose numerals are the ids of the sample items, then the items of the
  basket that are not sample items have pairwise distinct ids, and the ids of all the
  items of the basket are pairwise distinct if and only if no sample item is in the
  basket twice.
\<close>

theorem basket_ids_distinct:
  assumes "distinct (clockReadings acts)" and "set (clockReadings acts) \<inter> {1..6} = {}"
  shows "distinct (map item_id (filter (\<lambda>it. it \<notin> set SAMPLE_ITEMS) (basket (ui (run acts)))))
     \<and> (distinct (map item_id (basket (ui (run acts))))
          \<longleftrightarrow> distinct (filter (\<lambda>it. it \<in> set SAMPLE_ITEMS) (basket (ui (run acts)))))"
proof -
  from sessionInv_run[OF assms]
  have g: "goodBasket (set (clockReadings acts)) (basket (ui (run acts)))"
    by (simp add: sessionInv_def)
  then have "distinct (map item_id (filter (\<lambda>it. it \<notin> set SAMPLE_ITEMS) (basket (ui (run acts)))))"
    by (simp add: goodBasket_def)
  moreover note goodBasket_distinct[OF g assms(2)]
  ultimately show ?thesis by (rule conjI)
qed

theorem basket_ids_distinct_witness:
  "distinct (clockReadings
      [PickSample 0, StartBarcodeScanner, PickSample 1,
       BarcodeDecoded 0 1700000000001 (js ''42''), TypeManualPrice (js ''2.50''),
       SubmitManualPrice 1700000000002, RemoveItem 1])
   \<and> set (clockReadings
      [PickSample 0, StartBarcodeScanner, PickSample 1,
       BarcodeDecoded 0 1700000000001 (js ''42''), TypeManualPrice (js ''2.50''),
       SubmitManualPrice 1700000000002, RemoveItem 1]) \<inter> {1..6} = {}
   \<and> basket (ui (run
      [PickSample 0, StartBarcodeScanner, PickSample 1,
       BarcodeDecoded 0 1700000000001 (js ''42''), TypeManualPrice (js ''2.50''),
       SubmitManualPrice 1700000000002, RemoveItem 1]))
       = [SAMPLE_ITEMS ! 0,
          \<lparr>item_id = numberToString 1700000000002, item_name = js ''Manual Item'',
           price = Fin (5 / 2)\<rparr>]
   \<and> distinct (map item_id (basket (ui (run
      [PickSample 0, StartBarcodeScanner, PickSample 1,
       BarcodeDecoded 0 1700000000001 (js ''42''), TypeManualPrice (js ''2.50''),
       SubmitManualPrice 1700000000002, RemoveItem 1]))))"
proof -
  let ?acts = "[PickSample 0, StartBarcodeScanner, PickSample 1,
       BarcodeDecoded 0 1700000000001 (js ''42''), TypeManualPrice (js ''2.50''),
       SubmitManualPrice 1700000000002, RemoveItem 1]"
  let ?manual = "\<lparr>item_id = numberToString 1700000000002, item_name = js ''Manual Item'',
           price = Fin (5 / 2)\<rparr>"
  have c: "clockReadings ?acts = [1700000000001, 1700000000002]"
    by simp
  have h1: "distinct (clockReadings ?acts)"
    unfolding c by simp
  have h2: "set (clockReadings ?acts) \<inter> {1..6} = {}"
    unfolding c by simp
  have b: "basket (ui (run ?acts)) = [SAMPLE_ITEMS ! 0, ?manual]"
    by (simp add: run_def initialSession_def initialState_def startBarcodeScanner_def
        addItemToBasket_def barcodeDecoded_def dropAt_def handleManualPriceSubmit_def
        removeItemFromBasket_def parseFloat_eval jgt_def Let_def upt_rec SAMPLE_ITEMS_def)
  have m: "?manual \<notin> set SAMPLE_ITEMS"
    by (simp add: SAMPLE_ITEMS_def js_def)
  have s: "distinct (filter (\<lambda>it. it \<in> set SAMPLE_ITEMS) (basket (ui (run ?acts))))"
    unfolding b using m by simp
  from basket_ids_distinct[OF h1 h2] s
  have d: "distinct (map item_id (basket (ui (run ?acts))))"
    by blast
  from h1 h2 b d show ?thesis by blast
qed

end
